theory Spec2Isabelle
  imports Main "HOL-Library.Char_ord" "HOL-Library.List_Lexorder" "HOL-Library.Sublist"
    "HOL-Library.Multiset" "HOL-Library.AList"
begin

section \<open>Python values held by the train manager\<close>

text \<open>
  \<^verbatim>\<open>individual_1.py\<close> keeps its trains in \<^verbatim>\<open>self.trains\<close>, declared as
  \<^verbatim>\<open>List[Dict[str, str]]\<close>. Python does not enforce the declaration, and
  \<^verbatim>\<open>load_from_json\<close> assigns whatever \<^verbatim>\<open>json.load\<close> returns, so the attribute
  is modelled as a value of the type of everything \<^verbatim>\<open>json.load\<close> can produce.

  A Python \<^verbatim>\<open>str\<close> is a \<open>string\<close>; one \<open>char\<close> is one character, so the model's
  alphabet is the 256 characters U+0000 .. U+00FF. A \<^verbatim>\<open>dict\<close> is an association list
  in insertion order (the order \<^verbatim>\<open>json.dump\<close> writes). A float is kept as the literal it
  was read from: no operation of the program looks at its numeric value.
\<close>

datatype json =
    JNull
  | JBool bool
  | JInt int
  | JFloat string
  | JStr string
  | JArr "json list"
  | JObj "(string \<times> json) list"

datatype error =
    KeyError string
  | TypeError
  | AttributeError
  | JSONDecodeError
  | Unrepresentable

text \<open>The records of the log file \<^verbatim>\<open>trains.log\<close>: the level and the fields that the
  f-string of each call puts into its fixed message text.\<close>

datatype level = INFO | WARNING

datatype message =
    TrainAdded string string string string
  | SearchDone string nat
  | LoadedFrom string
  | FileNotFound string
  | SavedTo string

text \<open>The manager object together with the two things its methods act on: the files and
  the log. A file is its text under its name: the names are flat (no directories, no
  permissions), so a file that is there can be read and every name can be written.\<close>

record store =
  trains :: json
  files :: "string \<rightharpoonup> string"
  log :: "(level \<times> message) list"

subsection \<open>The string methods the program calls\<close>

definition is_upper :: "char \<Rightarrow> bool" where
  "is_upper c = (let n = (of_char c :: nat) in
     (65 \<le> n \<and> n \<le> 90) \<or> (192 \<le> n \<and> n \<le> 222 \<and> n \<noteq> 215))"

definition lower_char :: "char \<Rightarrow> char" where
  "lower_char c =
     (if is_upper c
      then (case c of Char b0 b1 b2 b3 b4 b5 b6 b7 \<Rightarrow> Char b0 b1 b2 b3 b4 True b6 b7)
      else c)"

definition str_lower :: "string \<Rightarrow> string" where
  \<comment> \<open>\<^verbatim>\<open>str.lower()\<close> on U+0000 .. U+00FF: A-Z and the accented capitals move up by 32.\<close>
  "str_lower s = map lower_char s"

definition endswith :: "string \<Rightarrow> string \<Rightarrow> bool" where
  \<comment> \<open>\<^verbatim>\<open>s.endswith(suf)\<close>\<close>
  "endswith s suf = (length suf \<le> length s \<and> drop (length s - length suf) s = suf)"

subsection \<open>Subscripting, method lookup and iteration\<close>

fun getitem :: "json \<Rightarrow> string \<Rightarrow> error + json" where
  \<comment> \<open>\<^verbatim>\<open>train[k]\<close> for a string \<open>k\<close>: only a dict can be subscripted by a string.\<close>
  "getitem (JObj kvs) k = (case map_of kvs k of None \<Rightarrow> Inl (KeyError k) | Some v \<Rightarrow> Inr v)"
| "getitem _ k = Inl TypeError"

fun lower_of :: "json \<Rightarrow> error + string" where
  \<comment> \<open>\<^verbatim>\<open>v.lower()\<close>: only a str has the method.\<close>
  "lower_of (JStr s) = Inr (str_lower s)"
| "lower_of _ = Inl AttributeError"

fun iterate :: "json \<Rightarrow> error + json list" where
  \<comment> \<open>\<^verbatim>\<open>for train in v\<close>: a list gives its elements, a dict its keys, a str its characters.\<close>
  "iterate (JArr xs) = Inr xs"
| "iterate (JObj kvs) = Inr (map (\<lambda>kv. JStr (fst kv)) kvs)"
| "iterate (JStr s) = Inr (map (\<lambda>c. JStr [c]) s)"
| "iterate _ = Inl TypeError"

fun is_str :: "json \<Rightarrow> bool" where
  "is_str (JStr s) = True"
| "is_str _ = False"

fun the_str :: "json \<Rightarrow> string" where
  "the_str (JStr s) = s"
| "the_str _ = []"

definition field :: "string \<Rightarrow> json \<Rightarrow> string" where
  \<comment> \<open>The str that \<^verbatim>\<open>t[k]\<close> is, where it is one.\<close>
  "field k t = (case getitem t k of Inr v \<Rightarrow> the_str v | Inl e \<Rightarrow> [])"

section \<open>The json module\<close>

text \<open>
  The program calls the standard library for the file format. A file is the text that
  \<^verbatim>\<open>open(filename, encoding="utf-8")\<close> reads or writes; the bytes under it are not
  modelled. \<^verbatim>\<open>json.dump(v, f, ensure_ascii=False, indent=4)\<close> writes \<open>json_dumps v\<close>, and
  \<^verbatim>\<open>json.load(f)\<close> is \<open>json_loads\<close> of the text: the value, or \<^verbatim>\<open>JSONDecodeError\<close>.
  \<open>Unrepresentable\<close> is not an exception of Python: the text names, by a \<^verbatim>\<open>\u\<close> escape,
  a character outside the alphabet of the model, which has no value for what Python reads
  there.

  Left out are the limits of the interpreter and of the file system. An int literal of
  more than 4300 digits (\<^verbatim>\<open>ValueError\<close> in CPython 3.11) and a nesting deeper than the
  recursion limit (\<^verbatim>\<open>RecursionError\<close>) are read as values here. A call of
  \<^verbatim>\<open>open\<close> that fails (a missing directory, a file that may not be written) and a str
  that UTF-8 cannot encode make \<^verbatim>\<open>save_to_json\<close> raise in Python; here it always
  returns.
\<close>

subsection \<open>Writing: the encoder with an indent of four spaces\<close>

definition hex_digit :: "nat \<Rightarrow> char" where
  \<comment> \<open>\<^verbatim>\<open>0\<close> .. \<^verbatim>\<open>9\<close>, \<^verbatim>\<open>a\<close> .. \<^verbatim>\<open>f\<close>\<close>
  "hex_digit d = (if d < 10 then char_of (48 + d) else char_of (87 + d))"

definition escape_char :: "char \<Rightarrow> string" where
  \<comment> \<open>With \<^verbatim>\<open>ensure_ascii=False\<close> only the quote, the backslash and the characters below
     U+0020 are escaped.\<close>
  "escape_char c =
     (if c = CHR 0x22 then [CHR 0x5C, CHR 0x22]
      else if c = CHR 0x5C then [CHR 0x5C, CHR 0x5C]
      else if c = CHR 0x0A then [CHR 0x5C, CHR ''n'']
      else if c = CHR 0x0D then [CHR 0x5C, CHR ''r'']
      else if c = CHR 0x09 then [CHR 0x5C, CHR ''t'']
      else if c = CHR 0x08 then [CHR 0x5C, CHR ''b'']
      else if c = CHR 0x0C then [CHR 0x5C, CHR ''f'']
      else if (of_char c :: nat) < 32
        then [CHR 0x5C, CHR ''u'', CHR ''0'', CHR ''0'',
              hex_digit (of_char c div 16), hex_digit (of_char c mod 16)]
      else [c])"

definition encode_str :: "string \<Rightarrow> string" where
  "encode_str s = CHR 0x22 # concat (map escape_char s) @ [CHR 0x22]"

fun digits :: "nat \<Rightarrow> string" where
  "digits n = (if n < 10 then [char_of (48 + n)] else digits (n div 10) @ [char_of (48 + n mod 10)])"

declare digits.simps [simp del]

definition int_repr :: "int \<Rightarrow> string" where
  "int_repr i = (if i < 0 then CHR ''-'' # digits (nat (- i)) else digits (nat i))"

definition newline_indent :: "nat \<Rightarrow> string" where
  "newline_indent level = CHR 0x0A # replicate (4 * level) CHR '' ''"

fun join :: "'a list \<Rightarrow> 'a list list \<Rightarrow> 'a list" where
  "join sep [] = []"
| "join sep [x] = x"
| "join sep (x # y # ys) = x @ sep @ join sep (y # ys)"

fun encode :: "nat \<Rightarrow> json \<Rightarrow> string" where
  \<comment> \<open>The text of a value at a nesting level. With an indent the items of a list or dict
     are on lines of their own, separated by a comma, and a key is followed by a colon and
     a space. A float is written as the literal it is kept as, where Python writes the
     \<^verbatim>\<open>repr\<close> of its value.\<close>
  "encode level JNull = ''null''"
| "encode level (JBool b) = (if b then ''true'' else ''false'')"
| "encode level (JInt i) = int_repr i"
| "encode level (JFloat lit) = lit"
| "encode level (JStr s) = encode_str s"
| "encode level (JArr vs) =
     (if vs = [] then ''[]''
      else ''['' @ newline_indent (Suc level)
           @ join ('','' @ newline_indent (Suc level)) (map (encode (Suc level)) vs)
           @ newline_indent level @ '']'')"
| "encode level (JObj kvs) =
     (if kvs = [] then ''{}''
      else ''{'' @ newline_indent (Suc level)
           @ join ('','' @ newline_indent (Suc level))
               (map (\<lambda>(k, v). encode_str k @ '': '' @ encode (Suc level) v) kvs)
           @ newline_indent level @ ''}'')"

definition json_dumps :: "json \<Rightarrow> string" where
  "json_dumps v = encode 0 v"

subsection \<open>Reading: tokens, then values\<close>

text \<open>
  The decoder accepts blanks (space, tab, newline, carriage return) before and after every
  bracket, brace, comma, colon and value, so reading is done in two passes: the text is cut
  into tokens, and the tokens are put together. Every failure of either pass is the one
  exception \<^verbatim>\<open>JSONDecodeError\<close>.
\<close>

datatype token = LBracket | RBracket | LBrace | RBrace | Comma | Colon | Str string | Atom json

definition is_ws :: "char \<Rightarrow> bool" where
  "is_ws c = (c = CHR '' '' \<or> c = CHR 0x09 \<or> c = CHR 0x0A \<or> c = CHR 0x0D)"

definition is_digit :: "char \<Rightarrow> bool" where
  "is_digit c = (48 \<le> (of_char c :: nat) \<and> (of_char c :: nat) \<le> 57)"

definition hex_value :: "char \<Rightarrow> nat option" where
  "hex_value c =
     (let n = (of_char c :: nat) in
      if 48 \<le> n \<and> n \<le> 57 then Some (n - 48)
      else if 97 \<le> n \<and> n \<le> 102 then Some (n - 87)
      else if 65 \<le> n \<and> n \<le> 70 then Some (n - 55)
      else None)"

fun unicode_escape :: "string \<Rightarrow> error + char" where
  "unicode_escape [a, b, c, d] =
     (case (hex_value a, hex_value b, hex_value c, hex_value d) of
        (Some x, Some y, Some z, Some w) \<Rightarrow>
          (let n = 16 * (16 * (16 * x + y) + z) + w in
           if n < 256 then Inr (char_of n) else Inl Unrepresentable)
      | _ \<Rightarrow> Inl JSONDecodeError)"
| "unicode_escape _ = Inl JSONDecodeError"

definition simple_escape :: "char \<Rightarrow> char option" where
  "simple_escape e =
     (if e = CHR 0x22 then Some (CHR 0x22)
      else if e = CHR 0x5C then Some (CHR 0x5C)
      else if e = CHR ''/'' then Some (CHR ''/'')
      else if e = CHR ''b'' then Some (CHR 0x08)
      else if e = CHR ''f'' then Some (CHR 0x0C)
      else if e = CHR ''n'' then Some (CHR 0x0A)
      else if e = CHR ''r'' then Some (CHR 0x0D)
      else if e = CHR ''t'' then Some (CHR 0x09)
      else None)"

definition digits_value :: "string \<Rightarrow> nat" where
  "digits_value ds = foldl (\<lambda>n c. 10 * n + (of_char c - 48)) 0 ds"

definition match_number :: "string \<Rightarrow> (json \<times> nat) option" where
  \<comment> \<open>The number at the head of the text and its length: an optional minus, then
     \<^verbatim>\<open>0\<close> or digits with no leading zero, then an optional fraction, then an optional
     exponent. With neither fraction nor exponent it is an int.\<close>
  "match_number s =
     (let sign = (if take 1 s = ''-'' then ''-'' else []);
          r0 = drop (length sign) s;
          ds = takeWhile is_digit r0;
          ipart = (if take 1 ds = ''0'' then ''0'' else ds);
          r1 = drop (length ipart) r0;
          fd = takeWhile is_digit (drop 1 r1);
          frac = (if take 1 r1 = ''.'' \<and> fd \<noteq> [] then CHR ''.'' # fd else []);
          r2 = drop (length frac) r1;
          es = (if take 1 (drop 1 r2) = ''+'' \<or> take 1 (drop 1 r2) = ''-'' then take 1 (drop 1 r2) else []);
          ed = takeWhile is_digit (drop (1 + length es) r2);
          ex = (if (take 1 r2 = ''e'' \<or> take 1 r2 = ''E'') \<and> ed \<noteq> [] then take 1 r2 @ es @ ed else [])
      in if ipart = [] then None
         else if frac = [] \<and> ex = []
           then Some (JInt (if sign = [] then int (digits_value ipart) else - int (digits_value ipart)),
                      length sign + length ipart)
         else Some (JFloat (sign @ ipart @ frac @ ex),
                    length sign + length ipart + length frac + length ex))"

definition emit :: "token \<Rightarrow> error + token list \<Rightarrow> error + token list" where
  "emit t r = (case r of Inl e \<Rightarrow> Inl e | Inr ts \<Rightarrow> Inr (t # ts))"

text \<open>Inside a string literal a backslash starts an escape, the quote ends the literal,
  and a character below U+0020 is an error.\<close>

fun tokenize :: "string \<Rightarrow> error + token list"
  and tokenize_str :: "string \<Rightarrow> string \<Rightarrow> error + token list" where
  "tokenize [] = Inr []"
| "tokenize (c # cs) =
     (if is_ws c then tokenize cs
      else if c = CHR ''['' then emit LBracket (tokenize cs)
      else if c = CHR '']'' then emit RBracket (tokenize cs)
      else if c = CHR ''{'' then emit LBrace (tokenize cs)
      else if c = CHR ''}'' then emit RBrace (tokenize cs)
      else if c = CHR '','' then emit Comma (tokenize cs)
      else if c = CHR '':'' then emit Colon (tokenize cs)
      else if c = CHR 0x22 then tokenize_str [] cs
      else if take 4 (c # cs) = ''null'' then emit (Atom JNull) (tokenize (drop 3 cs))
      else if take 4 (c # cs) = ''true'' then emit (Atom (JBool True)) (tokenize (drop 3 cs))
      else if take 5 (c # cs) = ''false'' then emit (Atom (JBool False)) (tokenize (drop 4 cs))
      else (case match_number (c # cs) of
              Some (v, n) \<Rightarrow> emit (Atom v) (tokenize (drop (n - 1) cs))
            | None \<Rightarrow>
                if take 3 (c # cs) = ''NaN'' then emit (Atom (JFloat ''NaN'')) (tokenize (drop 2 cs))
                else if take 8 (c # cs) = ''Infinity''
                  then emit (Atom (JFloat ''Infinity'')) (tokenize (drop 7 cs))
                else if take 9 (c # cs) = ''-Infinity''
                  then emit (Atom (JFloat ''-Infinity'')) (tokenize (drop 8 cs))
                else Inl JSONDecodeError))"
| "tokenize_str acc [] = Inl JSONDecodeError"
| "tokenize_str acc (c # cs) =
     (if c = CHR 0x22 then emit (Str (rev acc)) (tokenize cs)
      else if c = CHR 0x5C then
        (case cs of
           [] \<Rightarrow> Inl JSONDecodeError
         | e # cs' \<Rightarrow>
             if e = CHR ''u'' then
               (case unicode_escape (take 4 cs') of
                  Inl err \<Rightarrow> Inl err
                | Inr ch \<Rightarrow> tokenize_str (ch # acc) (drop 4 cs'))
             else
               (case simple_escape e of
                  None \<Rightarrow> Inl JSONDecodeError
                | Some ch \<Rightarrow> tokenize_str (ch # acc) cs'))
      else if (of_char c :: nat) < 32 then Inl JSONDecodeError
      else tokenize_str (c # acc) cs)"

text \<open>
  The values are built with a stack of the lists and dicts that are open: for a list its
  items so far, for a dict its items so far and the key that waits for its value. A key
  that comes again replaces the value at the place where the key came first, as
  \<^verbatim>\<open>dict\<close> does. \<open>parse_value\<close> expects a value, \<open>parse_after\<close> has just read one.
\<close>

datatype frame = InArr "json list" | InObj "(string \<times> json) list" string

fun parse_value :: "frame list \<Rightarrow> token list \<Rightarrow> error + json"
  and parse_after :: "frame list \<Rightarrow> json \<Rightarrow> token list \<Rightarrow> error + json" where
  "parse_value st [] = Inl JSONDecodeError"
| "parse_value st (t # ts) =
     (case t of
        Atom a \<Rightarrow> parse_after st a ts
      | Str s \<Rightarrow> parse_after st (JStr s) ts
      | LBracket \<Rightarrow>
          (case ts of
             RBracket # ts' \<Rightarrow> parse_after st (JArr []) ts'
           | _ \<Rightarrow> parse_value (InArr [] # st) ts)
      | LBrace \<Rightarrow>
          (case ts of
             RBrace # ts' \<Rightarrow> parse_after st (JObj []) ts'
           | Str k # Colon # ts' \<Rightarrow> parse_value (InObj [] k # st) ts'
           | _ \<Rightarrow> Inl JSONDecodeError)
      | _ \<Rightarrow> Inl JSONDecodeError)"
| "parse_after st v [] = (if st = [] then Inr v else Inl JSONDecodeError)"
| "parse_after st v (t # ts) =
     (case st of
        [] \<Rightarrow> Inl JSONDecodeError
      | InArr vs # st' \<Rightarrow>
          (if t = Comma then parse_value (InArr (vs @ [v]) # st') ts
           else if t = RBracket then parse_after st' (JArr (vs @ [v])) ts
           else Inl JSONDecodeError)
      | InObj kvs k # st' \<Rightarrow>
          (if t = Comma then
             (case ts of
                Str k' # Colon # ts' \<Rightarrow> parse_value (InObj (AList.update k v kvs) k' # st') ts'
              | _ \<Rightarrow> Inl JSONDecodeError)
           else if t = RBrace then parse_after st' (JObj (AList.update k v kvs)) ts
           else Inl JSONDecodeError))"

definition json_loads :: "string \<Rightarrow> error + json" where
  "json_loads s = (case tokenize s of Inl e \<Rightarrow> Inl e | Inr ts \<Rightarrow> parse_value [] ts)"

subsection \<open>JSON text\<close>

text \<open>
  What the decoder takes for JSON, said without the decoder: a text is well formed when it
  is spelled by tokens that make up one value. Blanks may stand before, between and after
  the lexemes. Besides the literals of JSON the decoder reads the constants
  \<^verbatim>\<open>NaN\<close>, \<^verbatim>\<open>Infinity\<close> and \<^verbatim>\<open>-Infinity\<close>, so they are lexemes here. The
  predicates look at the syntax only: the values the tokens carry are not constrained.
\<close>

inductive str_body :: "string \<Rightarrow> bool" where
  "str_body []"
| "c \<noteq> CHR 0x22 \<Longrightarrow> c \<noteq> CHR 0x5C \<Longrightarrow> \<not> (of_char c :: nat) < 32 \<Longrightarrow> str_body b
     \<Longrightarrow> str_body (c # b)"
| "e \<in> {CHR 0x22, CHR 0x5C, CHR ''/'', CHR ''b'', CHR ''f'', CHR ''n'', CHR ''r'', CHR ''t''}
     \<Longrightarrow> str_body b \<Longrightarrow> str_body (CHR 0x5C # e # b)"
| "hex_value h1 \<noteq> None \<Longrightarrow> hex_value h2 \<noteq> None \<Longrightarrow> hex_value h3 \<noteq> None
     \<Longrightarrow> hex_value h4 \<noteq> None \<Longrightarrow> str_body b
     \<Longrightarrow> str_body (CHR 0x5C # CHR ''u'' # h1 # h2 # h3 # h4 # b)"

definition digit_run :: "string \<Rightarrow> bool" where
  "digit_run ds = (ds \<noteq> [] \<and> (\<forall>c \<in> set ds. is_digit c))"

definition number :: "string \<Rightarrow> bool" where
  "number l =
     (\<exists>sign ip frac ex.
        l = sign @ ip @ frac @ ex
        \<and> (sign = [] \<or> sign = ''-'')
        \<and> (ip = ''0'' \<or> (digit_run ip \<and> hd ip \<noteq> CHR ''0''))
        \<and> (frac = [] \<or> (\<exists>fd. frac = CHR ''.'' # fd \<and> digit_run fd))
        \<and> (ex = [] \<or> (\<exists>e sg ed. ex = e # sg @ ed \<and> (e = CHR ''e'' \<or> e = CHR ''E'')
               \<and> (sg = [] \<or> sg = ''+'' \<or> sg = ''-'') \<and> digit_run ed)))"

fun lexeme :: "token \<Rightarrow> string \<Rightarrow> bool" where
  "lexeme LBracket l = (l = ''['')"
| "lexeme RBracket l = (l = '']'')"
| "lexeme LBrace l = (l = ''{'')"
| "lexeme RBrace l = (l = ''}'')"
| "lexeme Comma l = (l = '','')"
| "lexeme Colon l = (l = '':'')"
| "lexeme (Str s) l = (\<exists>b. l = CHR 0x22 # b @ [CHR 0x22] \<and> str_body b)"
| "lexeme (Atom v) l =
     (l = ''null'' \<or> l = ''true'' \<or> l = ''false'' \<or> l = ''NaN'' \<or> l = ''Infinity''
      \<or> l = ''-Infinity'' \<or> number l)"

inductive spells :: "token list \<Rightarrow> string \<Rightarrow> bool" where
  "spells [] []"
| "is_ws c \<Longrightarrow> spells ts r \<Longrightarrow> spells ts (c # r)"
| "lexeme t l \<Longrightarrow> spells ts r \<Longrightarrow> spells (t # ts) (l @ r)"

inductive is_value :: "token list \<Rightarrow> bool"
  and more_items :: "token list \<Rightarrow> bool"
  and more_members :: "token list \<Rightarrow> bool" where
  "is_value [Atom a]"
| "is_value [Str s]"
| "is_value [LBracket, RBracket]"
| "is_value v \<Longrightarrow> more_items r \<Longrightarrow> is_value (LBracket # v @ r @ [RBracket])"
| "is_value [LBrace, RBrace]"
| "is_value v \<Longrightarrow> more_members r \<Longrightarrow> is_value (LBrace # Str k # Colon # v @ r @ [RBrace])"
| "more_items []"
| "is_value v \<Longrightarrow> more_items r \<Longrightarrow> more_items (Comma # v @ r)"
| "more_members []"
| "is_value v \<Longrightarrow> more_members r \<Longrightarrow> more_members (Comma # Str k # Colon # v @ r)"

definition well_formed :: "string \<Rightarrow> bool" where
  "well_formed c = (\<exists>ts. spells ts c \<and> is_value ts)"

section \<open>TrainManager\<close>

definition init :: "(string \<rightharpoonup> string) \<Rightarrow> (level \<times> message) list \<Rightarrow> store" where
  \<comment> \<open>\<^verbatim>\<open>TrainManager()\<close> in a process with the given files and log.\<close>
  "init fs lg = \<lparr>trains = JArr [], files = fs, log = lg\<rparr>"

definition train_dict :: "string \<Rightarrow> string \<Rightarrow> string \<Rightarrow> string \<Rightarrow> json" where
  \<comment> \<open>The dict literal of \<^verbatim>\<open>add_train\<close>.\<close>
  "train_dict departure_point number_train time_departure destination =
     JObj [(''departure_point'', JStr departure_point),
           (''number_train'', JStr number_train),
           (''time_departure'', JStr time_departure),
           (''destination'', JStr destination)]"

fun sort_keys :: "json list \<Rightarrow> error + json list" where
  \<comment> \<open>\<^verbatim>\<open>lambda train: train["time_departure"]\<close> on every element, in order, before any
     comparison; the first failure is raised.\<close>
  "sort_keys [] = Inr []"
| "sort_keys (t # ts) =
     (case getitem t ''time_departure'' of
        Inl e \<Rightarrow> Inl e
      | Inr k \<Rightarrow> (case sort_keys ts of Inl e \<Rightarrow> Inl e | Inr ks \<Rightarrow> Inr (k # ks)))"

definition add_train :: "string \<Rightarrow> string \<Rightarrow> string \<Rightarrow> string \<Rightarrow> store \<Rightarrow> error + store" where
  \<comment> \<open>\<^verbatim>\<open>append\<close> exists on a list only. \<^verbatim>\<open>list.sort\<close> is stable and compares the keys with
     \<^verbatim>\<open><\<close>, which on two strs is the lexicographic order of their characters; the key of
     the appended dict is a str, so a key of any other type meets a str in some comparison
     and that comparison raises \<^verbatim>\<open>TypeError\<close>. \<open>Inl\<close> is a raise; the order in which the
     interrupted sort leaves the list is not modelled.\<close>
  "add_train departure_point number_train time_departure destination s =
     (case trains s of
        JArr xs \<Rightarrow>
          (let ys = xs @ [train_dict departure_point number_train time_departure destination] in
           case sort_keys ys of
             Inl e \<Rightarrow> Inl e
           | Inr ks \<Rightarrow>
               if list_all is_str ks
               then Inr (s\<lparr>trains := JArr (sort_key (field ''time_departure'') ys),
                          log := log s @
                            [(INFO, TrainAdded departure_point number_train time_departure destination)]\<rparr>)
               else Inl TypeError)
      | _ \<Rightarrow> Inl AttributeError)"

fun add_trains :: "(string \<times> string \<times> string \<times> string) list \<Rightarrow> store \<Rightarrow> error + store" where
  \<comment> \<open>A run of \<^verbatim>\<open>add\<close> commands of the interactive loop, each with its four answers.\<close>
  "add_trains [] s = Inr s"
| "add_trains ((departure_point, number_train, time_departure, destination) # calls) s =
     (case add_train departure_point number_train time_departure destination s of
        Inl e \<Rightarrow> Inl e
      | Inr s' \<Rightarrow> add_trains calls s')"

definition list_trains :: "store \<Rightarrow> json" where
  "list_trains s = trains s"

fun selected :: "string \<Rightarrow> json list \<Rightarrow> error + json list" where
  \<comment> \<open>The list comprehension of \<^verbatim>\<open>select_trains\<close>, element by element.\<close>
  "selected point_user [] = Inr []"
| "selected point_user (train # rest) =
     (case getitem train ''destination'' of
        Inl e \<Rightarrow> Inl e
      | Inr d \<Rightarrow>
          (case lower_of d of
             Inl e \<Rightarrow> Inl e
           | Inr l \<Rightarrow>
               (case selected point_user rest of
                  Inl e \<Rightarrow> Inl e
                | Inr sel \<Rightarrow> Inr (if l = point_user then train # sel else sel))))"

definition select_trains :: "string \<Rightarrow> store \<Rightarrow> error + (json list \<times> store)" where
  "select_trains point_user s =
     (let point_user = str_lower point_user in
      case iterate (trains s) of
        Inl e \<Rightarrow> Inl e
      | Inr ts \<Rightarrow>
          (case selected point_user ts of
             Inl e \<Rightarrow> Inl e
           | Inr sel \<Rightarrow>
               Inr (sel, s\<lparr>log := log s @ [(INFO, SearchDone point_user (length sel))]\<rparr>)))"

definition load_from_json :: "string \<Rightarrow> store \<Rightarrow> error option \<times> store" where
  \<comment> \<open>The exception raised, if any, and the store the program goes on with.
     \<^verbatim>\<open>os.path.exists\<close> is whether a file of that name is there.\<close>
  "load_from_json filename s =
     (case files s filename of
        Some content \<Rightarrow>
          (case json_loads content of
             Inl e \<Rightarrow> (Some e, s)
           | Inr v \<Rightarrow> (None, s\<lparr>trains := v, log := log s @ [(INFO, LoadedFrom filename)]\<rparr>))
      | None \<Rightarrow> (None, s\<lparr>log := log s @ [(WARNING, FileNotFound filename)]\<rparr>))"

definition save_to_json :: "string \<Rightarrow> store \<Rightarrow> store" where
  "save_to_json filename s =
     (let filename = (if \<not> endswith filename ''.json'' then filename @ ''.json'' else filename) in
      s\<lparr>files := (files s)(filename \<mapsto> json_dumps (trains s)),
        log := log s @ [(INFO, SavedTo filename)]\<rparr>)"

subsection \<open>The records of the data model\<close>

definition field_names :: "string list" where
  "field_names = [''departure_point'', ''number_train'', ''time_departure'', ''destination'']"

fun is_train :: "json \<Rightarrow> bool" where
  \<comment> \<open>A dict with exactly the four fields, in any order, each a str.\<close>
  "is_train (JObj kvs) =
     (distinct (map fst kvs) \<and> set (map fst kvs) = set field_names \<and> list_all is_str (map snd kvs))"
| "is_train _ = False"


subsection \<open>Values that a dump and a load give back\<close>



definition emits :: "token list \<Rightarrow> error + token list \<Rightarrow> error + token list" where
  "emits ts r = (case r of Inl e \<Rightarrow> Inl e | Inr ts' \<Rightarrow> Inr (ts @ ts'))"

text \<open>The tokens that may follow a value when the lists and dicts of a stack are open:
  more items or members, then the closing bracket or brace, for each frame in turn.\<close>

inductive closes :: "frame list \<Rightarrow> token list \<Rightarrow> bool" where
  "closes [] []"
| "more_items r \<Longrightarrow> closes st ts \<Longrightarrow> closes (InArr vs # st) (r @ RBracket # ts)"
| "more_members r \<Longrightarrow> closes st ts \<Longrightarrow> closes (InObj kvs k # st) (r @ RBrace # ts)"

section \<open>Records of the data model\<close>

lemma is_train_getitem:
  assumes "is_train t" and "k \<in> set field_names"
  shows "\<exists>v. getitem t k = Inr (JStr v)"
proof (cases t)
  case (JObj kvs)
  with assms have d: "distinct (map fst kvs)" and ks: "k \<in> set (map fst kvs)"
    and strs: "list_all is_str (map snd kvs)"
    by simp_all
  from ks obtain v where kv: "(k, v) \<in> set kvs" by auto
  with d have m: "map_of kvs k = Some v" by simp
  from kv strs have "is_str v" by (auto simp: list_all_iff)
  then obtain x where "v = JStr x" by (cases v) simp_all
  with m JObj show ?thesis by simp
qed (use assms in simp_all)

lemma is_train_train_dict: "is_train (train_dict a b c d)"
  by (simp add: train_dict_def field_names_def)

lemma field_train_dict:
  "field ''time_departure'' (train_dict a b c d) = c"
  "field ''destination'' (train_dict a b c d) = d"
  by (simp_all add: train_dict_def field_def)




section \<open>Selection by destination\<close>

lemma selected_trains:
  assumes "list_all is_train xs"
  shows "selected p xs = Inr (filter (\<lambda>t. str_lower (field ''destination'' t) = p) xs)"
  using assms
proof (induction xs)
  case Nil
  show ?case by simp
next
  case (Cons t ts)
  then have "is_train t" by simp
  then obtain v where v: "getitem t ''destination'' = Inr (JStr v)"
    using is_train_getitem [of t "''destination''"] by (auto simp: field_names_def)
  with Cons show ?case by (simp add: field_def)
qed

text \<open>
  Claim C1. In a store whose list holds records of the data model, \<open>select_trains d\<close>
  returns exactly the elements of \<open>list_trains\<close> whose destination, lower-cased, is
  \<open>d\<close> lower-cased, in the order they have in \<open>list_trains\<close> (so a subsequence of it,
  possibly empty), and logs the lower-cased query with the number of matches.
\<close>

theorem select_trains_filter:
  assumes "list_trains s = JArr xs" and "list_all is_train xs"
  shows "select_trains d s =
           Inr (filter (\<lambda>t. str_lower (field ''destination'' t) = str_lower d) xs,
                s\<lparr>log := log s @ [(INFO, SearchDone (str_lower d)
                   (length (filter (\<lambda>t. str_lower (field ''destination'' t) = str_lower d) xs)))]\<rparr>)
         \<and> subseq (filter (\<lambda>t. str_lower (field ''destination'' t) = str_lower d) xs) xs"
  using assms by (simp add: select_trains_def list_trains_def selected_trains Let_def)

theorem select_trains_filter_witness:
  "list_trains (init Map.empty [] \<lparr>trains := JArr [train_dict ''Moscow'' ''202'' ''08:00'' ''Samara'',
        train_dict ''Moscow'' ''101'' ''09:15'' ''Kazan'']\<rparr>) =
     JArr [train_dict ''Moscow'' ''202'' ''08:00'' ''Samara'', train_dict ''Moscow'' ''101'' ''09:15'' ''Kazan'']
   \<and> list_all is_train
        [train_dict ''Moscow'' ''202'' ''08:00'' ''Samara'', train_dict ''Moscow'' ''101'' ''09:15'' ''Kazan'']
   \<and> select_trains ''KAZAN''
        (init Map.empty [] \<lparr>trains := JArr [train_dict ''Moscow'' ''202'' ''08:00'' ''Samara'',
           train_dict ''Moscow'' ''101'' ''09:15'' ''Kazan'']\<rparr>) =
      Inr ([train_dict ''Moscow'' ''101'' ''09:15'' ''Kazan''],
           \<lparr>trains = JArr [train_dict ''Moscow'' ''202'' ''08:00'' ''Samara'',
              train_dict ''Moscow'' ''101'' ''09:15'' ''Kazan''],
            files = Map.empty, log = [(INFO, SearchDone ''kazan'' 1)]\<rparr>)"
proof -
  let ?xs = "[train_dict ''Moscow'' ''202'' ''08:00'' ''Samara'',
              train_dict ''Moscow'' ''101'' ''09:15'' ''Kazan'']"
  let ?s = "init Map.empty [] \<lparr>trains := JArr ?xs\<rparr>"
  have h1: "list_trains ?s = JArr ?xs" by (simp add: list_trains_def init_def)
  have h2: "list_all is_train ?xs" by (simp add: is_train_train_dict)
  show ?thesis
    using h1 h2 select_trains_filter [OF h1 h2, of "''KAZAN''"]
    by (simp add: init_def train_dict_def field_def str_lower_def lower_char_def is_upper_def)
qed

text \<open>The scenario of the specification: with one record for Kazan, the queries
  \<^verbatim>\<open>kazan\<close> and \<^verbatim>\<open>KAZAN\<close> both return it.\<close>

lemma scenario_select_kazan:
  "map_sum id fst (select_trains ''kazan''
     (init Map.empty [] \<lparr>trains := JArr [train_dict ''Moscow'' ''101'' ''09:15'' ''Kazan'']\<rparr>)) =
     Inr [train_dict ''Moscow'' ''101'' ''09:15'' ''Kazan'']"
  "map_sum id fst (select_trains ''KAZAN''
     (init Map.empty [] \<lparr>trains := JArr [train_dict ''Moscow'' ''101'' ''09:15'' ''Kazan'']\<rparr>)) =
     Inr [train_dict ''Moscow'' ''101'' ''09:15'' ''Kazan'']"
  by (simp_all add: select_trains_def init_def train_dict_def str_lower_def lower_char_def
      is_upper_def)

text \<open>Outside the data model the comprehension raises: a record without a destination
  is a \<^verbatim>\<open>KeyError\<close>.\<close>

lemma select_trains_missing_field:
  "select_trains ''kazan'' (init Map.empty [] \<lparr>trains := JArr [JObj []]\<rparr>) =
     Inl (KeyError ''destination'')"
  by (simp add: select_trains_def init_def)

section \<open>Insertion\<close>

lemma sort_keys_trains:
  assumes "list_all is_train xs"
  shows "sort_keys xs = Inr (map (\<lambda>t. JStr (field ''time_departure'' t)) xs)"
  using assms
proof (induction xs)
  case Nil
  show ?case by simp
next
  case (Cons t ts)
  then have "is_train t" by simp
  then obtain v where v: "getitem t ''time_departure'' = Inr (JStr v)"
    using is_train_getitem [of t "''time_departure''"] by (auto simp: field_names_def)
  with Cons show ?case by (simp add: field_def)
qed

lemma add_train_trains:
  assumes "trains s = JArr xs" and "list_all is_train xs"
  shows "add_train a b c d s =
     Inr (s\<lparr>trains := JArr (sort_key (field ''time_departure'') (xs @ [train_dict a b c d])),
            log := log s @ [(INFO, TrainAdded a b c d)]\<rparr>)"
proof -
  have "list_all is_train (xs @ [train_dict a b c d])"
    using assms(2) by (simp add: is_train_train_dict)
  then have "sort_keys (xs @ [train_dict a b c d]) =
      Inr (map (\<lambda>t. JStr (field ''time_departure'' t)) (xs @ [train_dict a b c d]))"
    by (rule sort_keys_trains)
  then show ?thesis
    using assms(1) by (simp add: add_train_def Let_def list_all_iff)
qed

lemma add_train_is_train:
  assumes "list_all is_train xs"
  shows "list_all is_train (sort_key (field ''time_departure'') (xs @ [train_dict a b c d]))"
  using assms by (simp add: list_all_iff is_train_train_dict)

lemma add_trains_sorted_aux:
  assumes "trains s = JArr xs" and "list_all is_train xs" and "calls \<noteq> []"
  shows "\<exists>s' ys. add_trains calls s = Inr s' \<and> trains s' = JArr ys \<and> list_all is_train ys
           \<and> sorted (map (field ''time_departure'') ys)"
  using assms
proof (induction calls arbitrary: s xs)
  case Nil
  then show ?case by simp
next
  case (Cons call calls)
  obtain a b c d where call: "call = (a, b, c, d)" by (cases call)
  let ?ys = "sort_key (field ''time_departure'') (xs @ [train_dict a b c d])"
  let ?s = "s\<lparr>trains := JArr ?ys, log := log s @ [(INFO, TrainAdded a b c d)]\<rparr>"
  have step: "add_train a b c d s = Inr ?s"
    using Cons.prems(1,2) by (rule add_train_trains)
  have tr: "list_all is_train ?ys"
    using Cons.prems(2) by (rule add_train_is_train)
  show ?case
  proof (cases "calls = []")
    case True
    then show ?thesis using step tr call by simp
  next
    case False
    have "trains ?s = JArr ?ys" by simp
    from Cons.IH [OF this tr False] show ?thesis using step call by simp
  qed
qed

text \<open>
  Claim C2. From a store whose list holds records of the data model, in any order, every
  non-empty run of \<open>add_train\<close> calls returns, and the list it leaves is non-decreasing in
  the departure time under the lexicographic order of strings. A run that stops after any
  of its calls is such a run, so the list is sorted after each call.
\<close>

theorem add_train_sorted:
  assumes "list_trains s = JArr xs" and "list_all is_train xs" and "calls \<noteq> []"
  shows "\<exists>s' ys. add_trains calls s = Inr s' \<and> list_trains s' = JArr ys
           \<and> sorted (map (field ''time_departure'') ys)"
  using add_trains_sorted_aux [of s xs calls] assms by (auto simp: list_trains_def)

theorem add_train_sorted_witness:
  "list_trains (init Map.empty []) = JArr [] \<and> list_all is_train []
   \<and> [(''Moscow'', ''101'', ''09:15'', ''Kazan''), (''Moscow'', ''202'', ''08:00'', ''Samara'')] \<noteq> []
   \<and> (\<exists>s' ys. add_trains [(''Moscow'', ''101'', ''09:15'', ''Kazan''),
                            (''Moscow'', ''202'', ''08:00'', ''Samara'')] (init Map.empty []) = Inr s'
         \<and> list_trains s' = JArr ys \<and> sorted (map (field ''time_departure'') ys))"
proof -
  have h1: "list_trains (init Map.empty []) = JArr []" by (simp add: list_trains_def init_def)
  have h2: "list_all is_train []" by simp
  have h3: "[(''Moscow'', ''101'', ''09:15'', ''Kazan''), (''Moscow'', ''202'', ''08:00'', ''Samara'')] \<noteq> []"
    by simp
  show ?thesis using h1 h2 add_train_sorted [OF h1 h2 h3] by simp
qed

text \<open>The scenario of the specification: Kazan at 09:15 is added first, Samara at 08:00
  second, and the list has Samara first. The order is that of strings: \<^verbatim>\<open>9:00\<close> comes
  after \<^verbatim>\<open>09:15\<close>.\<close>

lemma scenario_two_trains:
  "add_trains [(''Moscow'', ''101'', ''09:15'', ''Kazan''), (''Moscow'', ''202'', ''08:00'', ''Samara'')]
     (init Map.empty []) =
   Inr \<lparr>trains = JArr [train_dict ''Moscow'' ''202'' ''08:00'' ''Samara'',
                       train_dict ''Moscow'' ''101'' ''09:15'' ''Kazan''],
        files = Map.empty,
        log = [(INFO, TrainAdded ''Moscow'' ''101'' ''09:15'' ''Kazan''),
               (INFO, TrainAdded ''Moscow'' ''202'' ''08:00'' ''Samara'')]\<rparr>"
  by (simp add: add_train_def init_def train_dict_def field_def)

lemma scenario_string_order:
  "map_sum id list_trains
     (add_trains [(''A'', ''1'', ''9:00'', ''X''), (''B'', ''2'', ''09:15'', ''Y'')] (init Map.empty [])) =
   Inr (JArr [train_dict ''B'' ''2'' ''09:15'' ''Y'', train_dict ''A'' ''1'' ''9:00'' ''X''])"
  by (simp add: add_train_def init_def train_dict_def field_def list_trains_def)

text \<open>
  Claim C9. \<open>add_train\<close> appends the record and sorts stably: the new list is a
  rearrangement of the old one with the record appended, and for every departure time
  \<open>k\<close> the records with that time are the old ones in their old order, followed by the
  new record when its time is \<open>k\<close>.
\<close>

theorem add_train_stable:
  assumes "list_trains s = JArr xs" and "list_all is_train xs"
  shows "\<exists>s' ys. add_train a b c d s = Inr s' \<and> list_trains s' = JArr ys
           \<and> mset ys = mset (xs @ [train_dict a b c d])
           \<and> (\<forall>k. filter (\<lambda>t. field ''time_departure'' t = k) ys =
                    filter (\<lambda>t. field ''time_departure'' t = k) xs @
                    (if c = k then [train_dict a b c d] else []))"
  using assms
  by (simp add: add_train_trains list_trains_def sort_key_stable field_train_dict)

theorem add_train_stable_witness:
  "list_trains (init Map.empty [] \<lparr>trains := JArr [train_dict ''Moscow'' ''202'' ''08:00'' ''Samara'',
        train_dict ''Moscow'' ''101'' ''09:15'' ''Kazan'']\<rparr>) =
     JArr [train_dict ''Moscow'' ''202'' ''08:00'' ''Samara'', train_dict ''Moscow'' ''101'' ''09:15'' ''Kazan'']
   \<and> list_all is_train
        [train_dict ''Moscow'' ''202'' ''08:00'' ''Samara'', train_dict ''Moscow'' ''101'' ''09:15'' ''Kazan'']
   \<and> add_train ''Tula'' ''303'' ''08:00'' ''Orel''
        (init Map.empty [] \<lparr>trains := JArr [train_dict ''Moscow'' ''202'' ''08:00'' ''Samara'',
           train_dict ''Moscow'' ''101'' ''09:15'' ''Kazan'']\<rparr>) =
      Inr \<lparr>trains = JArr [train_dict ''Moscow'' ''202'' ''08:00'' ''Samara'',
              train_dict ''Tula'' ''303'' ''08:00'' ''Orel'',
              train_dict ''Moscow'' ''101'' ''09:15'' ''Kazan''],
            files = Map.empty, log = [(INFO, TrainAdded ''Tula'' ''303'' ''08:00'' ''Orel'')]\<rparr>"
proof -
  let ?xs = "[train_dict ''Moscow'' ''202'' ''08:00'' ''Samara'',
              train_dict ''Moscow'' ''101'' ''09:15'' ''Kazan'']"
  let ?s = "init Map.empty [] \<lparr>trains := JArr ?xs\<rparr>"
  have h1: "list_trains ?s = JArr ?xs" by (simp add: list_trains_def init_def)
  have h2: "list_all is_train ?xs" by (simp add: is_train_train_dict)
  from add_train_stable [OF h1 h2, of "''Tula''" "''303''" "''08:00''" "''Orel''"]
  obtain s' ys where r: "add_train ''Tula'' ''303'' ''08:00'' ''Orel'' ?s = Inr s'"
    and "list_trains s' = JArr ys" by blast
  have "add_train ''Tula'' ''303'' ''08:00'' ''Orel'' ?s =
      Inr \<lparr>trains = JArr [train_dict ''Moscow'' ''202'' ''08:00'' ''Samara'',
              train_dict ''Tula'' ''303'' ''08:00'' ''Orel'',
              train_dict ''Moscow'' ''101'' ''09:15'' ''Kazan''],
            files = Map.empty, log = [(INFO, TrainAdded ''Tula'' ''303'' ''08:00'' ''Orel'')]\<rparr>"
    by (simp add: add_train_def init_def train_dict_def field_def)
  with h1 h2 r show ?thesis by simp
qed

section \<open>A dump followed by a load\<close>

lemma emits_simps [simp]:
  "emits [] r = r"
  "emit t (emits ts r) = emits (t # ts) r"
  "emits ts (emits ts' r) = emits (ts @ ts') r"
  "emit t r = emits [t] r"
  by (auto simp: emits_def emit_def split: sum.splits)


subsection \<open>The text of a value is read as its tokens\<close>












subsection \<open>The tokens of a value are parsed as the value\<close>







section \<open>What the decoder reads is JSON text\<close>

text \<open>Every text that \<open>json_loads\<close> reads as a value is well formed; so a text that is not
  well formed is rejected.\<close>

lemma closes_InArr:
  assumes "closes (InArr vs # st) ts"
  obtains r ts' where "ts = r @ RBracket # ts'" "more_items r" "closes st ts'"
  using assms by (cases rule: closes.cases) auto

lemma closes_InObj:
  assumes "closes (InObj kvs k # st) ts"
  obtains r ts' where "ts = r @ RBrace # ts'" "more_members r" "closes st ts'"
  using assms by (cases rule: closes.cases) auto

lemma closes_Nil: "closes [] ts \<Longrightarrow> ts = []"
  by (cases rule: closes.cases) auto

lemma parse_value_cases:
  assumes "parse_value st ts = Inr x"
  obtains
    (Atom) a ts1 where "ts = Atom a # ts1" "parse_after st a ts1 = Inr x"
  | (Str) s ts1 where "ts = Str s # ts1" "parse_after st (JStr s) ts1 = Inr x"
  | (Empty_Arr) ts1 where "ts = LBracket # RBracket # ts1" "parse_after st (JArr []) ts1 = Inr x"
  | (Arr) ts1 where "ts = LBracket # ts1" "parse_value (InArr [] # st) ts1 = Inr x"
  | (Empty_Obj) ts1 where "ts = LBrace # RBrace # ts1" "parse_after st (JObj []) ts1 = Inr x"
  | (Obj) k ts1 where "ts = LBrace # Str k # Colon # ts1" "parse_value (InObj [] k # st) ts1 = Inr x"
proof (cases ts)
  case Nil
  with assms show ?thesis by simp
next
  case (Cons t ts1)
  note ts = this
  show ?thesis
  proof (cases t)
    case (Atom a)
    with assms ts show ?thesis by (intro that(1) [of a ts1]) simp_all
  next
    case (Str s)
    with assms ts show ?thesis by (intro that(2) [of s ts1]) simp_all
  next
    case LBracket
    show ?thesis
    proof (cases ts1)
      case Nil
      with assms ts LBracket show ?thesis by (intro that(4) [of ts1]) simp_all
    next
      case (Cons u ts2)
      show ?thesis
      proof (cases "u = RBracket")
        case True
        with assms ts LBracket Cons show ?thesis by (intro that(3) [of ts2]) simp_all
      next
        case False
        with assms ts LBracket Cons have "parse_value (InArr [] # st) ts1 = Inr x"
          by (cases u) simp_all
        with ts LBracket show ?thesis by (intro that(4) [of ts1]) simp_all
      qed
    qed
  next
    case LBrace
    show ?thesis
    proof (cases ts1)
      case Nil
      with assms ts LBrace show ?thesis by simp
    next
      case (Cons u ts2)
      note ts1 = this
      show ?thesis
      proof (cases u)
        case RBrace
        with assms ts LBrace ts1 show ?thesis by (intro that(5) [of ts2]) simp_all
      next
        case (Str k)
        show ?thesis
        proof (cases ts2)
          case Nil
          with assms ts LBrace ts1 Str show ?thesis by simp
        next
          case (Cons w ts3)
          show ?thesis
          proof (cases "w = Colon")
            case True
            with assms ts LBrace ts1 Str Cons show ?thesis by (intro that(6) [of k ts3]) simp_all
          next
            case False
            with assms ts LBrace ts1 Str Cons show ?thesis by (cases w) simp_all
          qed
        qed
      qed (use assms ts LBrace ts1 in simp_all)
    qed
  qed (use assms ts in simp_all)
qed

lemma parse_after_cases:
  assumes "parse_after st y ts = Inr x"
  obtains
    (Done) "st = []" "ts = []"
  | (Next_Item) vs st' ts1 where "st = InArr vs # st'" "ts = Comma # ts1"
      "parse_value (InArr (vs @ [y]) # st') ts1 = Inr x"
  | (End_Arr) vs st' ts1 where "st = InArr vs # st'" "ts = RBracket # ts1"
      "parse_after st' (JArr (vs @ [y])) ts1 = Inr x"
  | (Next_Member) kvs k st' k' ts1 where "st = InObj kvs k # st'" "ts = Comma # Str k' # Colon # ts1"
      "parse_value (InObj (AList.update k y kvs) k' # st') ts1 = Inr x"
  | (End_Obj) kvs k st' ts1 where "st = InObj kvs k # st'" "ts = RBrace # ts1"
      "parse_after st' (JObj (AList.update k y kvs)) ts1 = Inr x"
proof (cases ts)
  case Nil
  with assms show ?thesis by (intro that(1)) (simp_all split: if_splits)
next
  case (Cons t ts1)
  note ts = this
  show ?thesis
  proof (cases st)
    case Nil
    with assms ts show ?thesis by simp
  next
    case (Cons f st')
    note st = this
    show ?thesis
    proof (cases f)
      case (InArr vs)
      consider "t = Comma" | "t = RBracket" | "t \<noteq> Comma" "t \<noteq> RBracket" by blast
      then show ?thesis
      proof cases
        case 1
        with assms ts st InArr show ?thesis by (intro that(2) [of vs st' ts1]) simp_all
      next
        case 2
        with assms ts st InArr show ?thesis by (intro that(3) [of vs st' ts1]) simp_all
      next
        case 3
        with assms ts st InArr show ?thesis by simp
      qed
    next
      case (InObj kvs k)
      consider "t = Comma" | "t = RBrace" | "t \<noteq> Comma" "t \<noteq> RBrace" by blast
      then show ?thesis
      proof cases
        case 1
        show ?thesis
        proof (cases ts1)
          case Nil
          with assms ts st InObj 1 show ?thesis by simp
        next
          case (Cons u ts2)
          note ts1 = this
          show ?thesis
          proof (cases u)
            case (Str k')
            show ?thesis
            proof (cases ts2)
              case Nil
              with assms ts st InObj 1 ts1 Str show ?thesis by simp
            next
              case (Cons w ts3)
              show ?thesis
              proof (cases "w = Colon")
                case True
                with assms ts st InObj 1 ts1 Str Cons show ?thesis
                  by (intro that(4) [of kvs k st' k' ts3]) simp_all
              next
                case False
                with assms ts st InObj 1 ts1 Str Cons show ?thesis by (cases w) simp_all
              qed
            qed
          qed (use assms ts st InObj 1 ts1 in simp_all)
        qed
      next
        case 2
        with assms ts st InObj show ?thesis by (intro that(5) [of kvs k st' ts1]) simp_all
      next
        case 3
        with assms ts st InObj show ?thesis by simp
      qed
    qed
  qed
qed

lemma parse_sound:
  "(parse_value st ts = Inr x \<longrightarrow> (\<exists>v rest. ts = v @ rest \<and> is_value v \<and> closes st rest))
   \<and> (parse_after st y ts = Inr x \<longrightarrow> closes st ts)"
proof (induction "length ts" arbitrary: ts st y x rule: less_induct)
  case less
  have IHA: "\<exists>v rest. ts' = v @ rest \<and> is_value v \<and> closes st' rest"
    if "length ts' < length ts" "parse_value st' ts' = Inr x'" for ts' st' x'
    using less.hyps [OF that(1)] that(2) by blast
  have IHB: "closes st' ts'"
    if "length ts' < length ts" "parse_after st' y' ts' = Inr x'" for ts' st' y' x'
    using less.hyps [OF that(1)] that(2) by blast
  have A: "\<exists>v rest. ts = v @ rest \<and> is_value v \<and> closes st rest" if "parse_value st ts = Inr x"
    using that
  proof (cases rule: parse_value_cases)
    case (Atom a ts1)
    then have "closes st ts1" by (intro IHB [of ts1 st a x]) simp_all
    moreover have "is_value [Atom a]" by (rule is_value_more_items_more_members.intros)
    moreover have "ts = [Atom a] @ ts1" using Atom(1) by simp
    ultimately show ?thesis by blast
  next
    case (Str s ts1)
    then have "closes st ts1" by (intro IHB [of ts1 st "JStr s" x]) simp_all
    moreover have "is_value [Str s]" by (rule is_value_more_items_more_members.intros)
    moreover have "ts = [Str s] @ ts1" using Str(1) by simp
    ultimately show ?thesis by blast
  next
    case (Empty_Arr ts1)
    then have "closes st ts1" by (intro IHB [of ts1 st "JArr []" x]) simp_all
    moreover have "is_value [LBracket, RBracket]" by (rule is_value_more_items_more_members.intros)
    moreover have "ts = [LBracket, RBracket] @ ts1" using Empty_Arr(1) by simp
    ultimately show ?thesis by blast
  next
    case (Arr ts1)
    then obtain v rest where v: "ts1 = v @ rest" "is_value v" "closes (InArr [] # st) rest"
      using IHA [of ts1 "InArr [] # st" x] by auto
    from v(3) obtain r ts' where r: "rest = r @ RBracket # ts'" "more_items r" "closes st ts'"
      by (rule closes_InArr)
    have "is_value (LBracket # v @ r @ [RBracket])"
      using v(2) r(2) by (rule is_value_more_items_more_members.intros)
    moreover have "ts = (LBracket # v @ r @ [RBracket]) @ ts'"
      using Arr(1) v(1) r(1) by simp
    ultimately show ?thesis using r(3) by blast
  next
    case (Empty_Obj ts1)
    then have "closes st ts1" by (intro IHB [of ts1 st "JObj []" x]) simp_all
    moreover have "is_value [LBrace, RBrace]" by (rule is_value_more_items_more_members.intros)
    moreover have "ts = [LBrace, RBrace] @ ts1" using Empty_Obj(1) by simp
    ultimately show ?thesis by blast
  next
    case (Obj k ts1)
    then obtain v rest where v: "ts1 = v @ rest" "is_value v" "closes (InObj [] k # st) rest"
      using IHA [of ts1 "InObj [] k # st" x] by auto
    from v(3) obtain r ts' where r: "rest = r @ RBrace # ts'" "more_members r" "closes st ts'"
      by (rule closes_InObj)
    have "is_value (LBrace # Str k # Colon # v @ r @ [RBrace])"
      using v(2) r(2) by (rule is_value_more_items_more_members.intros)
    moreover have "ts = (LBrace # Str k # Colon # v @ r @ [RBrace]) @ ts'"
      using Obj(1) v(1) r(1) by simp
    ultimately show ?thesis using r(3) by blast
  qed
  have B: "closes st ts" if "parse_after st y ts = Inr x"
    using that
  proof (cases rule: parse_after_cases)
    case Done
    then show ?thesis by (simp add: closes.intros)
  next
    case (Next_Item vs st' ts1)
    then obtain v rest where v: "ts1 = v @ rest" "is_value v" "closes (InArr (vs @ [y]) # st') rest"
      using IHA [of ts1 "InArr (vs @ [y]) # st'" x] by auto
    from v(3) obtain r ts' where r: "rest = r @ RBracket # ts'" "more_items r" "closes st' ts'"
      by (rule closes_InArr)
    have "more_items (Comma # v @ r)"
      using v(2) r(2) by (rule is_value_more_items_more_members.intros)
    then have "closes (InArr vs # st') ((Comma # v @ r) @ RBracket # ts')"
      using r(3) by (rule closes.intros)
    then show ?thesis using Next_Item(1,2) v(1) r(1) by simp
  next
    case (End_Arr vs st' ts1)
    then have "closes st' ts1" by (intro IHB [of ts1 st' "JArr (vs @ [y])" x]) simp_all
    with is_value_more_items_more_members.intros(7)
    have "closes (InArr vs # st') ([] @ RBracket # ts1)" by (rule closes.intros)
    then show ?thesis using End_Arr(1,2) by simp
  next
    case (Next_Member kvs k st' k' ts1)
    then obtain v rest where v: "ts1 = v @ rest" "is_value v"
        "closes (InObj (AList.update k y kvs) k' # st') rest"
      using IHA [of ts1 "InObj (AList.update k y kvs) k' # st'" x] by auto
    from v(3) obtain r ts' where r: "rest = r @ RBrace # ts'" "more_members r" "closes st' ts'"
      by (rule closes_InObj)
    have "more_members (Comma # Str k' # Colon # v @ r)"
      using v(2) r(2) by (rule is_value_more_items_more_members.intros)
    then have "closes (InObj kvs k # st') ((Comma # Str k' # Colon # v @ r) @ RBrace # ts')"
      using r(3) by (rule closes.intros)
    then show ?thesis using Next_Member(1,2) v(1) r(1) by simp
  next
    case (End_Obj kvs k st' ts1)
    then have "closes st' ts1"
      by (intro IHB [of ts1 st' "JObj (AList.update k y kvs)" x]) simp_all
    with is_value_more_items_more_members.intros(9)
    have "closes (InObj kvs k # st') ([] @ RBrace # ts1)" by (rule closes.intros)
    then show ?thesis using End_Obj(1,2) by simp
  qed
  from A B show ?case by blast
qed

lemma parse_value_is_value:
  assumes "parse_value [] ts = Inr x"
  shows "is_value ts"
proof -
  from assms obtain v rest where "ts = v @ rest" "is_value v" "closes [] rest"
    using parse_sound [of "[]" ts x] by blast
  then show ?thesis by (auto dest: closes_Nil)
qed

lemma take1_eq: "take 1 xs = [a] \<Longrightarrow> xs = a # drop 1 xs"
  by (cases xs) simp_all

lemma takeWhile_drop [simp]: "takeWhile P xs @ drop (length (takeWhile P xs)) xs = xs"
  by (induction xs) simp_all

lemma digit_run_takeWhile: "takeWhile is_digit xs \<noteq> [] \<Longrightarrow> digit_run (takeWhile is_digit xs)"
  by (auto simp: digit_run_def dest: set_takeWhileD)

lemma match_number_sound:
  assumes "match_number s = Some (v, n)"
  shows "number (take n s) \<and> 0 < n \<and> n \<le> length s"
proof -
  define sign where "sign = (if take 1 s = ''-'' then ''-'' else [])"
  define r0 where "r0 = drop (length sign) s"
  define ds where "ds = takeWhile is_digit r0"
  define ipart where "ipart = (if take 1 ds = ''0'' then ''0'' else ds)"
  define r1 where "r1 = drop (length ipart) r0"
  define fd where "fd = takeWhile is_digit (drop 1 r1)"
  define frac where "frac = (if take 1 r1 = ''.'' \<and> fd \<noteq> [] then CHR ''.'' # fd else [])"
  define r2 where "r2 = drop (length frac) r1"
  define es where "es = (if take 1 (drop 1 r2) = ''+'' \<or> take 1 (drop 1 r2) = ''-''
                         then take 1 (drop 1 r2) else [])"
  define ed where "ed = takeWhile is_digit (drop (1 + length es) r2)"
  define ex where "ex = (if (take 1 r2 = ''e'' \<or> take 1 r2 = ''E'') \<and> ed \<noteq> []
                         then take 1 r2 @ es @ ed else [])"
  define r3 where "r3 = drop (length ex) r2"
  have mn: "match_number s =
      (if ipart = [] then None
       else if frac = [] \<and> ex = []
         then Some (JInt (if sign = [] then int (digits_value ipart) else - int (digits_value ipart)),
                    length sign + length ipart)
       else Some (JFloat (sign @ ipart @ frac @ ex),
                  length sign + length ipart + length frac + length ex))"
    unfolding match_number_def Let_def sign_def r0_def ds_def ipart_def r1_def fd_def frac_def
      r2_def es_def ed_def ex_def ..
  from assms mn have ip: "ipart \<noteq> []" by (simp split: if_splits)
  from assms mn ip have n: "n = length sign + length ipart + length frac + length ex"
    by (simp split: if_splits)
  have s0: "s = sign @ r0"
  proof (cases "take 1 s = ''-''")
    case True
    then have "s = CHR ''-'' # drop 1 s" by (rule take1_eq)
    with True show ?thesis by (simp add: sign_def r0_def)
  next
    case False
    then show ?thesis by (simp add: sign_def r0_def)
  qed
  have sg: "sign = [] \<or> sign = ''-''" by (simp add: sign_def)
  have s1: "r0 = ipart @ r1"
  proof (cases "take 1 ds = ''0''")
    case True
    then have a: "ds = CHR ''0'' # drop 1 ds" by (rule take1_eq)
    have "ds @ drop (length ds) r0 = r0" unfolding ds_def by simp
    then have "r0 = CHR ''0'' # (drop 1 ds @ drop (length ds) r0)"
      by (subst (asm) a) simp
    then have "r0 = ''0'' @ drop 1 r0" by (cases r0) simp_all
    with True show ?thesis by (simp add: ipart_def r1_def)
  next
    case False
    then show ?thesis by (simp add: ipart_def r1_def ds_def)
  qed
  have ipg: "ipart = ''0'' \<or> (digit_run ipart \<and> hd ipart \<noteq> CHR ''0'')"
  proof (cases "take 1 ds = ''0''")
    case True
    then show ?thesis by (simp add: ipart_def)
  next
    case False
    with ip have d: "ipart = ds" "ds \<noteq> []" by (simp_all add: ipart_def)
    then have "digit_run ds" unfolding ds_def by (intro digit_run_takeWhile) simp
    moreover have "hd ds \<noteq> CHR ''0''" using False d(2) by (cases ds) simp_all
    ultimately show ?thesis using d(1) by simp
  qed
  have s2: "r1 = frac @ r2"
  proof (cases "take 1 r1 = ''.'' \<and> fd \<noteq> []")
    case True
    then obtain rest where a: "r1 = CHR ''.'' # rest" by (cases r1) auto
    have "takeWhile is_digit rest @ drop (length (takeWhile is_digit rest)) rest = rest"
      by (rule takeWhile_drop)
    with a True show ?thesis by (simp add: frac_def r2_def fd_def)
  next
    case False
    then show ?thesis by (auto simp add: frac_def r2_def)
  qed
  have fg: "frac = [] \<or> (\<exists>fd'. frac = CHR ''.'' # fd' \<and> digit_run fd')"
  proof (cases "take 1 r1 = ''.'' \<and> fd \<noteq> []")
    case True
    then have "digit_run fd" unfolding fd_def by (intro digit_run_takeWhile) simp
    with True show ?thesis by (simp add: frac_def)
  next
    case False
    then show ?thesis by (auto simp: frac_def)
  qed
  have esg: "es = [] \<or> es = ''+'' \<or> es = ''-''" by (auto simp: es_def)
  have s3: "r2 = ex @ r3"
  proof (cases "(take 1 r2 = ''e'' \<or> take 1 r2 = ''E'') \<and> ed \<noteq> []")
    case True
    then obtain e rest where a: "r2 = e # rest" by (cases r2) auto
    have tw: "takeWhile is_digit xs @ drop (length (takeWhile is_digit xs)) xs = xs" for xs
      by (rule takeWhile_drop)
    show ?thesis
    proof (cases "es = []")
      case True
      with \<open>(take 1 r2 = ''e'' \<or> take 1 r2 = ''E'') \<and> ed \<noteq> []\<close> a tw [of rest]
      show ?thesis by (simp add: ex_def r3_def ed_def)
    next
      case False
      then have "take 1 (drop 1 r2) = es" by (simp add: es_def split: if_splits)
      with False a obtain c rest' where b: "rest = c # rest'" "es = [c]"
        by (cases rest) auto
      with \<open>(take 1 r2 = ''e'' \<or> take 1 r2 = ''E'') \<and> ed \<noteq> []\<close> a tw [of rest']
      show ?thesis by (simp add: ex_def r3_def ed_def)
    qed
  next
    case False
    then show ?thesis by (auto simp add: ex_def r3_def)
  qed
  have eg: "ex = [] \<or> (\<exists>e sg' ed'. ex = e # sg' @ ed' \<and> (e = CHR ''e'' \<or> e = CHR ''E'')
               \<and> (sg' = [] \<or> sg' = ''+'' \<or> sg' = ''-'') \<and> digit_run ed')"
  proof (cases "(take 1 r2 = ''e'' \<or> take 1 r2 = ''E'') \<and> ed \<noteq> []")
    case True
    then obtain e where e: "take 1 r2 = [e]" "e = CHR ''e'' \<or> e = CHR ''E''" by auto
    have "ex = e # es @ ed" using True e by (simp add: ex_def)
    moreover have "digit_run ed" using True unfolding ed_def by (intro digit_run_takeWhile) simp
    ultimately show ?thesis using e(2) esg by blast
  next
    case False
    then show ?thesis by (auto simp: ex_def)
  qed
  have whole: "s = (sign @ ipart @ frac @ ex) @ r3"
    using s0 s1 s2 s3 by simp
  have "take n s = take n ((sign @ ipart @ frac @ ex) @ r3)"
    using whole by simp
  also have "\<dots> = sign @ ipart @ frac @ ex"
    unfolding n by simp
  finally have tk: "take n s = sign @ ipart @ frac @ ex" .
  have "number (sign @ ipart @ frac @ ex)"
    unfolding number_def using sg ipg fg eg by blast
  moreover have "0 < n" using ip n by simp
  moreover have "n \<le> length s"
    using arg_cong [OF whole, of length] n by simp
  ultimately show ?thesis using tk by simp
qed

lemma emit_Inr:
  assumes "emit t r = Inr ts"
  obtains ts' where "r = Inr ts'" "ts = t # ts'"
  using assms by (cases r) (simp_all add: emits_def)

lemma word_split:
  assumes "take n (a # cs) = l" and "length l = n" and "0 < n"
  shows "a # cs = l @ drop (n - 1) cs"
proof -
  have "a # cs = take n (a # cs) @ drop n (a # cs)" by simp
  moreover have "drop n (a # cs) = drop (n - 1) cs" using assms(3) by (cases n) simp_all
  ultimately show ?thesis using assms(1) by simp
qed

lemma tokenize_cases:
  assumes "tokenize (a # cs) = Inr ts"
  obtains
    (Blank) "is_ws a" "tokenize cs = Inr ts"
  | (Punct) t ts' where "lexeme t [a]" "ts = t # ts'" "tokenize cs = Inr ts'"
  | (Quote) "a = CHR 0x22" "tokenize_str [] cs = Inr ts"
  | (Word) v l ts' where "lexeme (Atom v) l" "l \<noteq> []" "a # cs = l @ drop (length l - 1) cs"
      "ts = Atom v # ts'" "tokenize (drop (length l - 1) cs) = Inr ts'"
proof -
  consider "is_ws a"
    | "\<not> is_ws a" "a = CHR ''[''" | "\<not> is_ws a" "a = CHR '']''" | "\<not> is_ws a" "a = CHR ''{''"
    | "\<not> is_ws a" "a = CHR ''}''" | "\<not> is_ws a" "a = CHR '',''" | "\<not> is_ws a" "a = CHR '':''"
    | "\<not> is_ws a" "a = CHR 0x22"
    | "\<not> is_ws a" "a \<notin> {CHR ''['', CHR '']'', CHR ''{'', CHR ''}'', CHR '','', CHR '':'', CHR 0x22}"
    by blast
  then show ?thesis
  proof cases
    case 1
    with assms show ?thesis by (intro that(1)) simp_all
  next
    case 2
    with assms have "emit LBracket (tokenize cs) = Inr ts" by simp
    then obtain ts' where "tokenize cs = Inr ts'" "ts = LBracket # ts'" by (rule emit_Inr)
    with 2 show ?thesis by (intro that(2) [of LBracket ts']) simp_all
  next
    case 3
    with assms have "emit RBracket (tokenize cs) = Inr ts" by simp
    then obtain ts' where "tokenize cs = Inr ts'" "ts = RBracket # ts'" by (rule emit_Inr)
    with 3 show ?thesis by (intro that(2) [of RBracket ts']) simp_all
  next
    case 4
    with assms have "emit LBrace (tokenize cs) = Inr ts" by simp
    then obtain ts' where "tokenize cs = Inr ts'" "ts = LBrace # ts'" by (rule emit_Inr)
    with 4 show ?thesis by (intro that(2) [of LBrace ts']) simp_all
  next
    case 5
    with assms have "emit RBrace (tokenize cs) = Inr ts" by simp
    then obtain ts' where "tokenize cs = Inr ts'" "ts = RBrace # ts'" by (rule emit_Inr)
    with 5 show ?thesis by (intro that(2) [of RBrace ts']) simp_all
  next
    case 6
    with assms have "emit Comma (tokenize cs) = Inr ts" by simp
    then obtain ts' where "tokenize cs = Inr ts'" "ts = Comma # ts'" by (rule emit_Inr)
    with 6 show ?thesis by (intro that(2) [of Comma ts']) simp_all
  next
    case 7
    with assms have "emit Colon (tokenize cs) = Inr ts" by simp
    then obtain ts' where "tokenize cs = Inr ts'" "ts = Colon # ts'" by (rule emit_Inr)
    with 7 show ?thesis by (intro that(2) [of Colon ts']) simp_all
  next
    case 8
    with assms show ?thesis by (intro that(3)) simp_all
  next
    case 9
    then have eq: "tokenize (a # cs) =
      (if take 4 (a # cs) = ''null'' then emit (Atom JNull) (tokenize (drop 3 cs))
       else if take 4 (a # cs) = ''true'' then emit (Atom (JBool True)) (tokenize (drop 3 cs))
       else if take 5 (a # cs) = ''false'' then emit (Atom (JBool False)) (tokenize (drop 4 cs))
       else (case match_number (a # cs) of
               Some (v, n) \<Rightarrow> emit (Atom v) (tokenize (drop (n - 1) cs))
             | None \<Rightarrow>
                 if take 3 (a # cs) = ''NaN'' then emit (Atom (JFloat ''NaN'')) (tokenize (drop 2 cs))
                 else if take 8 (a # cs) = ''Infinity''
                   then emit (Atom (JFloat ''Infinity'')) (tokenize (drop 7 cs))
                 else if take 9 (a # cs) = ''-Infinity''
                   then emit (Atom (JFloat ''-Infinity'')) (tokenize (drop 8 cs))
                 else Inl JSONDecodeError))"
      by (subst tokenize.simps) simp
    have word: thesis
      if "take n (a # cs) = l" "length l = n" "0 < n" "lexeme (Atom v) l"
        "emit (Atom v) (tokenize (drop (n - 1) cs)) = Inr ts" for n l v
    proof -
      from that(5) obtain ts' where ts': "tokenize (drop (n - 1) cs) = Inr ts'" "ts = Atom v # ts'"
        by (rule emit_Inr)
      have "a # cs = l @ drop (length l - 1) cs"
        using word_split [OF that(1,2,3)] that(2) by simp
      moreover have "l \<noteq> []" using that(2,3) by auto
      ultimately show ?thesis
        using that(2,4) ts' by (intro \<open>\<And>v l ts'. \<lbrakk>lexeme (Atom v) l; l \<noteq> []; a # cs = l @ drop (length l - 1) cs; ts = Atom v # ts'; tokenize (drop (length l - 1) cs) = Inr ts'\<rbrakk> \<Longrightarrow> thesis\<close> [of v l ts']) simp_all
    qed
    consider "take 4 (a # cs) = ''null''"
      | "take 4 (a # cs) \<noteq> ''null''" "take 4 (a # cs) = ''true''"
      | "take 4 (a # cs) \<noteq> ''null''" "take 4 (a # cs) \<noteq> ''true''" "take 5 (a # cs) = ''false''"
      | "take 4 (a # cs) \<noteq> ''null''" "take 4 (a # cs) \<noteq> ''true''" "take 5 (a # cs) \<noteq> ''false''"
      by blast
    then show ?thesis
    proof cases
      case 1
      have "emit (Atom JNull) (tokenize (drop 3 cs)) = Inr ts"
        using assms unfolding eq by (simp only: 1 [THEN eqTrueI] if_True)
      with 1 show ?thesis by (intro word [of 4 "''null''" JNull]) simp_all
    next
      case 2
      have "emit (Atom (JBool True)) (tokenize (drop 3 cs)) = Inr ts"
        using assms unfolding eq by (simp only: 2(1) 2(2) [THEN eqTrueI] if_True if_False)
      with 2 show ?thesis by (intro word [of 4 "''true''" "JBool True"]) simp_all
    next
      case 3
      have "emit (Atom (JBool False)) (tokenize (drop 4 cs)) = Inr ts"
        using assms unfolding eq by (simp only: 3(1,2) 3(3) [THEN eqTrueI] if_True if_False)
      with 3 show ?thesis by (intro word [of 5 "''false''" "JBool False"]) simp_all
    next
      case 4
      show ?thesis
      proof (cases "match_number (a # cs)")
        case (Some p)
        obtain v n where p: "p = (v, n)" by (cases p)
        with Some have m: "match_number (a # cs) = Some (v, n)" by simp
        then have num: "number (take n (a # cs))" "0 < n" "n \<le> length (a # cs)"
          using match_number_sound [of "a # cs" v n] by simp_all
        have "emit (Atom v) (tokenize (drop (n - 1) cs)) = Inr ts"
          using assms unfolding eq by (simp only: 4 m if_False option.case prod.case)
        with num show ?thesis by (intro word [of n "take n (a # cs)" v]) simp_all
      next
        case None
        consider "take 3 (a # cs) = ''NaN''"
          | "take 3 (a # cs) \<noteq> ''NaN''" "take 8 (a # cs) = ''Infinity''"
          | "take 3 (a # cs) \<noteq> ''NaN''" "take 8 (a # cs) \<noteq> ''Infinity''"
            "take 9 (a # cs) = ''-Infinity''"
          | "take 3 (a # cs) \<noteq> ''NaN''" "take 8 (a # cs) \<noteq> ''Infinity''"
            "take 9 (a # cs) \<noteq> ''-Infinity''"
          by blast
        then show ?thesis
        proof cases
          case 1
          have "emit (Atom (JFloat ''NaN'')) (tokenize (drop 2 cs)) = Inr ts"
            using assms unfolding eq by (simp only: 4 None 1 [THEN eqTrueI] if_True if_False option.case)
          with 1 show ?thesis by (intro word [of 3 "''NaN''" "JFloat ''NaN''"]) simp_all
        next
          case 2
          have "emit (Atom (JFloat ''Infinity'')) (tokenize (drop 7 cs)) = Inr ts"
            using assms unfolding eq by (simp only: 4 None 2(1) 2(2) [THEN eqTrueI] if_True if_False option.case)
          with 2 show ?thesis by (intro word [of 8 "''Infinity''" "JFloat ''Infinity''"]) simp_all
        next
          case 3
          have "emit (Atom (JFloat ''-Infinity'')) (tokenize (drop 8 cs)) = Inr ts"
            using assms unfolding eq by (simp only: 4 None 3(1,2) 3(3) [THEN eqTrueI] if_True if_False option.case)
          with 3 show ?thesis by (intro word [of 9 "''-Infinity''" "JFloat ''-Infinity''"]) simp_all
        next
          case 4
          have "Inl JSONDecodeError = Inr ts"
            using assms unfolding eq
            by (simp only: \<open>take 4 (a # cs) \<noteq> ''null''\<close> \<open>take 4 (a # cs) \<noteq> ''true''\<close>
                \<open>take 5 (a # cs) \<noteq> ''false''\<close> None 4 if_False option.case)
          then show ?thesis by simp
        qed
      qed
    qed
  qed
qed

lemma unicode_escape_Inr:
  assumes "unicode_escape l = Inr ch"
  obtains h1 h2 h3 h4 where "l = [h1, h2, h3, h4]" "hex_value h1 \<noteq> None" "hex_value h2 \<noteq> None"
    "hex_value h3 \<noteq> None" "hex_value h4 \<noteq> None"
  using assms
  by (cases l rule: unicode_escape.cases) (auto split: option.splits if_splits simp: Let_def)

lemma simple_escape_Some:
  assumes "simple_escape e = Some ch"
  shows "e \<in> {CHR 0x22, CHR 0x5C, CHR ''/'', CHR ''b'', CHR ''f'', CHR ''n'', CHR ''r'', CHR ''t''}"
  using assms by (simp add: simple_escape_def split: if_splits)

lemma take4_eq:
  assumes "take 4 xs = [a, b, c, d]"
  shows "xs = a # b # c # d # drop 4 xs"
proof -
  have "xs = take 4 xs @ drop 4 xs" by simp
  with assms show ?thesis by simp
qed

lemma tokenize_str_cases:
  assumes "tokenize_str acc (a # cs) = Inr ts"
  obtains
    (Close) ts' where "a = CHR 0x22" "ts = Str (rev acc) # ts'" "tokenize cs = Inr ts'"
  | (Simple) e ch cs' where "a = CHR 0x5C" "cs = e # cs'"
      "e \<in> {CHR 0x22, CHR 0x5C, CHR ''/'', CHR ''b'', CHR ''f'', CHR ''n'', CHR ''r'', CHR ''t''}"
      "tokenize_str (ch # acc) cs' = Inr ts"
  | (Unicode) h1 h2 h3 h4 ch cs' where "a = CHR 0x5C" "cs = CHR ''u'' # h1 # h2 # h3 # h4 # cs'"
      "hex_value h1 \<noteq> None" "hex_value h2 \<noteq> None" "hex_value h3 \<noteq> None" "hex_value h4 \<noteq> None"
      "tokenize_str (ch # acc) cs' = Inr ts"
  | (Plain) "a \<noteq> CHR 0x22" "a \<noteq> CHR 0x5C" "\<not> (of_char a :: nat) < 32"
      "tokenize_str (a # acc) cs = Inr ts"
proof -
  consider "a = CHR 0x22" | "a = CHR 0x5C" | "a \<noteq> CHR 0x22" "a \<noteq> CHR 0x5C" by blast
  then show ?thesis
  proof cases
    case 1
    with assms have "emit (Str (rev acc)) (tokenize cs) = Inr ts" by simp
    then obtain ts' where "tokenize cs = Inr ts'" "ts = Str (rev acc) # ts'" by (rule emit_Inr)
    with 1 show ?thesis by (intro that(1) [of ts']) simp_all
  next
    case 2
    show ?thesis
    proof (cases cs)
      case Nil
      with assms 2 show ?thesis by simp
    next
      case (Cons e cs0)
      show ?thesis
      proof (cases "e = CHR ''u''")
        case True
        show ?thesis
        proof (cases "unicode_escape (take 4 cs0)")
          case (Inl err)
          with assms 2 Cons True show ?thesis by simp
        next
          case (Inr ch)
          then obtain h1 h2 h3 h4 where h: "take 4 cs0 = [h1, h2, h3, h4]"
            "hex_value h1 \<noteq> None" "hex_value h2 \<noteq> None" "hex_value h3 \<noteq> None"
            "hex_value h4 \<noteq> None"
            by (rule unicode_escape_Inr)
          from h(1) have cs0: "cs0 = h1 # h2 # h3 # h4 # drop 4 cs0" by (rule take4_eq)
          from assms 2 Cons True Inr have "tokenize_str (ch # acc) (drop 4 cs0) = Inr ts" by simp
          with 2 Cons True h cs0 show ?thesis
            by (intro that(3) [of h1 h2 h3 h4 "drop 4 cs0" ch]) simp_all
        qed
      next
        case False
        show ?thesis
        proof (cases "simple_escape e")
          case None
          with assms 2 Cons False show ?thesis by simp
        next
          case (Some ch)
          with assms 2 Cons False have "tokenize_str (ch # acc) cs0 = Inr ts" by simp
          with 2 Cons simple_escape_Some [OF Some] show ?thesis
            by (intro that(2) [of e cs0 ch]) simp_all
        qed
      qed
    qed
  next
    case 3
    show ?thesis
    proof (cases "(of_char a :: nat) < 32")
      case True
      with assms 3 show ?thesis by simp
    next
      case False
      with assms 3 show ?thesis by (intro that(4)) simp_all
    qed
  qed
qed

lemma spells_blank: "is_ws c \<Longrightarrow> spells ts r \<Longrightarrow> spells ts (c # r)"
  by (rule spells.intros)

lemma tokenize_sound:
  "(tokenize c = Inr ts \<longrightarrow> spells ts c)
   \<and> (tokenize_str acc c = Inr ts \<longrightarrow>
        (\<exists>b r s ts'. c = b @ CHR 0x22 # r \<and> str_body b \<and> ts = Str s # ts' \<and> spells ts' r))"
proof (induction "length c" arbitrary: c ts acc rule: less_induct)
  case less
  have IHA: "spells ts' c'" if "length c' < length c" "tokenize c' = Inr ts'" for c' ts'
    using less.hyps [OF that(1)] that(2) by blast
  have IHB: "\<exists>b r s ts''. c' = b @ CHR 0x22 # r \<and> str_body b \<and> ts' = Str s # ts'' \<and> spells ts'' r"
    if "length c' < length c" "tokenize_str acc' c' = Inr ts'" for c' ts' acc'
    using less.hyps [OF that(1)] that(2) by blast
  have A: "spells ts c" if t: "tokenize c = Inr ts"
  proof (cases c)
    case Nil
    with t show ?thesis by (simp add: spells.intros)
  next
    case (Cons a cs)
    from t [unfolded Cons] show ?thesis
    proof (cases rule: tokenize_cases)
      case Blank
      then have "spells ts cs" using IHA [of cs ts] Cons by simp
      with Blank(1) show ?thesis unfolding Cons by (rule spells.intros)
    next
      case (Punct t ts')
      then have "spells ts' cs" using IHA [of cs ts'] Cons by simp
      with Punct(1) have "spells (t # ts') ([a] @ cs)" by (rule spells.intros)
      with Punct(2) show ?thesis unfolding Cons by simp
    next
      case Quote
      then obtain b r s ts' where b: "cs = b @ CHR 0x22 # r" "str_body b" "ts = Str s # ts'"
          "spells ts' r"
        using IHB [of cs "[]" ts] Cons by auto
      have "lexeme (Str s) (CHR 0x22 # b @ [CHR 0x22])" using b(2) by auto
      then have "spells (Str s # ts') ((CHR 0x22 # b @ [CHR 0x22]) @ r)"
        using b(4) by (rule spells.intros)
      then show ?thesis unfolding Cons using Quote(1) b(1,3) by simp
    next
      case (Word v l ts')
      have "length (drop (length l - 1) cs) < length c" unfolding Cons by simp
      then have "spells ts' (drop (length l - 1) cs)" using Word(5) by (rule IHA)
      with Word(1) have "spells (Atom v # ts') (l @ drop (length l - 1) cs)"
        by (rule spells.intros)
      then show ?thesis unfolding Cons using Word(3,4) by simp
    qed
  qed
  have B: "\<exists>b r s ts'. c = b @ CHR 0x22 # r \<and> str_body b \<and> ts = Str s # ts' \<and> spells ts' r"
    if t: "tokenize_str acc c = Inr ts"
  proof (cases c)
    case Nil
    with t show ?thesis by simp
  next
    case (Cons a cs)
    from t [unfolded Cons] show ?thesis
    proof (cases rule: tokenize_str_cases)
      case (Close ts')
      then have "spells ts' cs" using IHA [of cs ts'] Cons by simp
      moreover have "c = [] @ CHR 0x22 # cs" using Cons Close(1) by simp
      ultimately show ?thesis using Close(2) str_body.intros(1) by blast
    next
      case (Simple e ch cs')
      then obtain b r s ts' where b: "cs' = b @ CHR 0x22 # r" "str_body b" "ts = Str s # ts'"
          "spells ts' r"
        using IHB [of cs' "ch # acc" ts] Cons by auto
      have "str_body (CHR 0x5C # e # b)" using Simple(3) b(2) by (rule str_body.intros)
      moreover have "c = (CHR 0x5C # e # b) @ CHR 0x22 # r" using Cons Simple(1,2) b(1) by simp
      ultimately show ?thesis using b(3,4) by blast
    next
      case (Unicode h1 h2 h3 h4 ch cs')
      then obtain b r s ts' where b: "cs' = b @ CHR 0x22 # r" "str_body b" "ts = Str s # ts'"
          "spells ts' r"
        using IHB [of cs' "ch # acc" ts] Cons by auto
      have "str_body (CHR 0x5C # CHR ''u'' # h1 # h2 # h3 # h4 # b)"
        using Unicode(3-6) b(2) by (rule str_body.intros)
      moreover have "c = (CHR 0x5C # CHR ''u'' # h1 # h2 # h3 # h4 # b) @ CHR 0x22 # r"
        using Cons Unicode(1,2) b(1) by simp
      ultimately show ?thesis using b(3,4) by blast
    next
      case Plain
      then obtain b r s ts' where b: "cs = b @ CHR 0x22 # r" "str_body b" "ts = Str s # ts'"
          "spells ts' r"
        using IHB [of cs "a # acc" ts] Cons by auto
      have "str_body (a # b)" using Plain(1-3) b(2) by (rule str_body.intros)
      moreover have "c = (a # b) @ CHR 0x22 # r" using Cons b(1) by simp
      ultimately show ?thesis using b(3,4) by blast
    qed
  qed
  from A B show ?case by blast
qed

lemma json_loads_well_formed:
  assumes "json_loads c = Inr v"
  shows "well_formed c"
proof -
  from assms obtain ts where ts: "tokenize c = Inr ts" "parse_value [] ts = Inr v"
    by (auto simp: json_loads_def split: sum.splits)
  from ts(1) have "spells ts c" using tokenize_sound [of c ts "[]"] by blast
  moreover from ts(2) have "is_value ts" by (rule parse_value_is_value)
  ultimately show ?thesis unfolding well_formed_def by blast
qed

lemma number_first:
  assumes "number l"
  obtains a l' where "l = a # l'" "a = CHR ''-'' \<or> is_digit a"
proof -
  from assms obtain sign ip frac ex where l: "l = sign @ ip @ frac @ ex"
    and sg: "sign = [] \<or> sign = ''-''"
    and ip: "ip = ''0'' \<or> (digit_run ip \<and> hd ip \<noteq> CHR ''0'')"
    unfolding number_def by blast
  from ip obtain d ip' where d: "ip = d # ip'" "is_digit d"
    by (cases ip) (auto simp: digit_run_def is_digit_def)
  show ?thesis
  proof (cases "sign = []")
    case True
    with l d show ?thesis by (intro that [of d "ip' @ frac @ ex"]) simp_all
  next
    case False
    with sg l show ?thesis by (intro that [of "CHR ''-''" "ip @ frac @ ex"]) simp_all
  qed
qed

lemma lexeme_nonempty: "lexeme t l \<Longrightarrow> l \<noteq> []"
  by (cases t) (auto elim: number_first)

lemma lexeme_LBracket:
  assumes "lexeme t (CHR ''['' # l)"
  shows "t = LBracket \<and> l = []"
proof (cases t)
  case (Atom v)
  with assms consider "CHR ''['' # l \<in> {''null'', ''true'', ''false'', ''NaN'', ''Infinity'', ''-Infinity''}"
    | "number (CHR ''['' # l)" by auto
  then show ?thesis
  proof cases
    case 1
    then show ?thesis by simp
  next
    case 2
    then show ?thesis by (rule number_first) (simp add: is_digit_def)
  qed
qed (use assms in simp_all)

lemma lexeme_LBrace:
  assumes "lexeme t (CHR ''{'' # l)"
  shows "t = LBrace \<and> l = []"
proof (cases t)
  case (Atom v)
  with assms consider "CHR ''{'' # l \<in> {''null'', ''true'', ''false'', ''NaN'', ''Infinity'', ''-Infinity''}"
    | "number (CHR ''{'' # l)" by auto
  then show ?thesis
  proof cases
    case 1
    then show ?thesis by simp
  next
    case 2
    then show ?thesis by (rule number_first) (simp add: is_digit_def)
  qed
qed (use assms in simp_all)

lemma spells_Nil:
  assumes "spells ts []"
  shows "ts = []"
proof -
  from assms have "ts = [] \<or> (\<exists>t l ts' r. ts = t # ts' \<and> [] = l @ r \<and> lexeme t l \<and> spells ts' r)"
    by (subst (asm) spells.simps) auto
  then show ?thesis by (auto dest: lexeme_nonempty)
qed

lemma spells_first:
  assumes "spells ts (a # r)" and "\<not> is_ws a"
  obtains t l ts' r' where "ts = t # ts'" "a # r = (a # l) @ r'" "lexeme t (a # l)" "spells ts' r'"
proof -
  from assms(1) have "(\<exists>c r'. a # r = c # r' \<and> is_ws c \<and> spells ts r')
      \<or> (\<exists>t l ts' r'. ts = t # ts' \<and> a # r = l @ r' \<and> lexeme t l \<and> spells ts' r')"
    by (subst (asm) spells.simps) auto
  with assms(2) obtain t l ts' r' where x: "ts = t # ts'" "a # r = l @ r'" "lexeme t l"
      "spells ts' r'"
    by auto
  from x(3) have "l \<noteq> []" by (rule lexeme_nonempty)
  with x(2) obtain l' where "l = a # l'" by (cases l) auto
  with x show ?thesis by (intro that [of t ts' l' r']) simp_all
qed

lemma spells_LBracket:
  assumes "spells ts (CHR ''['' # r)"
  obtains ts' where "ts = LBracket # ts'" "spells ts' r"
proof -
  have "\<not> is_ws (CHR ''['')" by (simp add: is_ws_def)
  with assms obtain t l ts' r' where x: "ts = t # ts'" "CHR ''['' # r = (CHR ''['' # l) @ r'"
      "lexeme t (CHR ''['' # l)" "spells ts' r'"
    by (rule spells_first)
  from x(3) have "t = LBracket \<and> l = []" by (rule lexeme_LBracket)
  with x show ?thesis by (intro that [of ts']) simp_all
qed

lemma spells_LBrace:
  assumes "spells ts (CHR ''{'' # r)"
  obtains ts' where "ts = LBrace # ts'" "spells ts' r"
proof -
  have "\<not> is_ws (CHR ''{'')" by (simp add: is_ws_def)
  with assms obtain t l ts' r' where x: "ts = t # ts'" "CHR ''{'' # r = (CHR ''{'' # l) @ r'"
      "lexeme t (CHR ''{'' # l)" "spells ts' r'"
    by (rule spells_first)
  from x(3) have "t = LBrace \<and> l = []" by (rule lexeme_LBrace)
  with x show ?thesis by (intro that [of ts']) simp_all
qed

lemma not_well_formed_empty: "\<not> well_formed []"
proof
  assume "well_formed []"
  then obtain ts where ts: "spells ts []" "is_value ts" unfolding well_formed_def by blast
  from ts(1) have "ts = []" by (rule spells_Nil)
  with ts(2) show False by (cases rule: is_value.cases) simp_all
qed

lemma not_well_formed_open: "\<not> well_formed ''[{''"
proof
  assume "well_formed ''[{''"
  then obtain ts where ts: "spells ts ''[{''" "is_value ts" unfolding well_formed_def by blast
  from ts(1) obtain ts1 where ts1: "ts = LBracket # ts1" "spells ts1 ''{''"
    by (rule spells_LBracket)
  from ts1(2) obtain ts2 where ts2: "ts1 = LBrace # ts2" "spells ts2 []"
    by (rule spells_LBrace)
  from ts2(2) have "ts2 = []" by (rule spells_Nil)
  with ts1(1) ts2(1) have "ts = [LBracket, LBrace]" by simp
  with ts(2) have "is_value [LBracket, LBrace]" by simp
  then show False by (cases rule: is_value.cases) (auto simp: append_eq_Cons_conv)
qed

section \<open>Saving\<close>

lemma endswith_suffix: "endswith s suf = suffix suf s"
proof
  assume "endswith s suf"
  then have "drop (length s - length suf) s = suf" by (simp add: endswith_def)
  then have "s = take (length s - length suf) s @ suf"
    using append_take_drop_id [of "length s - length suf" s] by simp
  then show "suffix suf s" unfolding suffix_def by blast
next
  assume "suffix suf s"
  then obtain zs where "s = zs @ suf" unfolding suffix_def by blast
  then show "endswith s suf" by (simp add: endswith_def)
qed

text \<open>
  Claim C7. \<open>save_to_json\<close> writes the dump of the list to the given name when the name
  ends with \<^verbatim>\<open>.json\<close>, and to the name followed by \<^verbatim>\<open>.json\<close> when it does not; it
  touches no other file, and the log names the file written.
\<close>

theorem save_to_json_path:
  "(suffix ''.json'' filename \<longrightarrow>
      save_to_json filename s =
        s\<lparr>files := (files s)(filename \<mapsto> json_dumps (trains s)),
          log := log s @ [(INFO, SavedTo filename)]\<rparr>)
   \<and> (\<not> suffix ''.json'' filename \<longrightarrow>
      save_to_json filename s =
        s\<lparr>files := (files s)(filename @ ''.json'' \<mapsto> json_dumps (trains s)),
          log := log s @ [(INFO, SavedTo (filename @ ''.json''))]\<rparr>)"
proof (cases "suffix ''.json'' filename")
  case True
  then have "endswith filename ''.json''" by (simp add: endswith_suffix)
  with True show ?thesis by (simp add: save_to_json_def)
next
  case False
  then have "\<not> endswith filename ''.json''" by (simp add: endswith_suffix)
  with False show ?thesis by (simp add: save_to_json_def Let_def)
qed

theorem save_to_json_path_witness:
  "\<not> suffix ''.json'' ''data'' \<and> suffix ''.json'' ''data.json''
   \<and> save_to_json ''data'' (init Map.empty []) =
       \<lparr>trains = JArr [], files = [''data.json'' \<mapsto> ''[]''], log = [(INFO, SavedTo ''data.json'')]\<rparr>
   \<and> save_to_json ''data.json'' (init Map.empty []) =
       \<lparr>trains = JArr [], files = [''data.json'' \<mapsto> ''[]''], log = [(INFO, SavedTo ''data.json'')]\<rparr>"
proof -
  have h1: "\<not> suffix ''.json'' ''data''"
    by (simp add: endswith_suffix [symmetric] endswith_def)
  have h2: "suffix ''.json'' ''data.json''"
    by (simp add: endswith_suffix [symmetric] endswith_def)
  show ?thesis
    using h1 h2 save_to_json_path [of "''data''" "init Map.empty []"]
      save_to_json_path [of "''data.json''" "init Map.empty []"]
    by (simp add: init_def json_dumps_def)
qed

text \<open>
  Claim C10. The test for the suffix compares characters as they are. When the name ends
  with a spelling \<open>v\<close> of \<^verbatim>\<open>.json\<close> in other letter case (\<open>v\<close> lower-cased is
  \<^verbatim>\<open>.json\<close>, and \<open>v\<close> is not), \<^verbatim>\<open>.json\<close> is appended all the same: the file written is
  the name followed by \<^verbatim>\<open>.json\<close>, and the file of the given name is left as it was.
\<close>

theorem save_to_json_case_sensitive:
  assumes "suffix v filename" and "str_lower v = ''.json''" and "v \<noteq> ''.json''"
  shows "save_to_json filename s =
           s\<lparr>files := (files s)(filename @ ''.json'' \<mapsto> json_dumps (trains s)),
             log := log s @ [(INFO, SavedTo (filename @ ''.json''))]\<rparr>
         \<and> files (save_to_json filename s) filename = files s filename"
proof -
  have len: "length v = length ''.json''"
    using assms(2) by (metis length_map str_lower_def)
  have "\<not> suffix ''.json'' filename"
  proof
    assume "suffix ''.json'' filename"
    then obtain a where a: "filename = a @ ''.json''" unfolding suffix_def by blast
    from assms(1) obtain b where b: "filename = b @ v" unfolding suffix_def by blast
    from a b len have "v = ''.json''" by (metis append_eq_append_conv)
    with assms(3) show False by simp
  qed
  then show ?thesis by (simp add: save_to_json_def endswith_suffix Let_def)
qed

theorem save_to_json_case_sensitive_witness:
  "suffix ''.JSON'' ''data.JSON'' \<and> str_lower ''.JSON'' = ''.json'' \<and> ''.JSON'' \<noteq> ''.json''
   \<and> save_to_json ''data.JSON'' (init Map.empty []) =
       \<lparr>trains = JArr [], files = [''data.JSON.json'' \<mapsto> ''[]''],
        log = [(INFO, SavedTo ''data.JSON.json'')]\<rparr>"
proof -
  have h1: "suffix ''.JSON'' ''data.JSON''"
    by (simp add: endswith_suffix [symmetric] endswith_def)
  have h2: "str_lower ''.JSON'' = ''.json''"
    by (simp add: str_lower_def lower_char_def is_upper_def)
  have h3: "''.JSON'' \<noteq> ''.json''" by simp
  show ?thesis
    using h1 h2 save_to_json_case_sensitive [OF h1 h2 h3, of "init Map.empty []"]
    by (simp add: init_def json_dumps_def)
qed

section \<open>Loading\<close>

text \<open>
  Claim C6. When no file has the given name, \<open>load_from_json\<close> raises nothing and changes
  neither the list nor the files: all it does is log a warning that names the path.
\<close>

theorem load_from_json_missing:
  assumes "files s filename = None"
  shows "load_from_json filename s = (None, s\<lparr>log := log s @ [(WARNING, FileNotFound filename)]\<rparr>)
         \<and> list_trains (snd (load_from_json filename s)) = list_trains s"
  using assms by (simp add: load_from_json_def list_trains_def)

theorem load_from_json_missing_witness:
  "files (init Map.empty [] \<lparr>trains := JArr [train_dict ''Moscow'' ''101'' ''09:15'' ''Kazan'']\<rparr>)
     ''nonexistent.json'' = None
   \<and> load_from_json ''nonexistent.json''
       (init Map.empty [] \<lparr>trains := JArr [train_dict ''Moscow'' ''101'' ''09:15'' ''Kazan'']\<rparr>) =
     (None, \<lparr>trains = JArr [train_dict ''Moscow'' ''101'' ''09:15'' ''Kazan''], files = Map.empty,
             log = [(WARNING, FileNotFound ''nonexistent.json'')]\<rparr>)"
proof -
  let ?s = "init Map.empty [] \<lparr>trains := JArr [train_dict ''Moscow'' ''101'' ''09:15'' ''Kazan'']\<rparr>"
  have h: "files ?s ''nonexistent.json'' = None" by (simp add: init_def)
  show ?thesis using h load_from_json_missing [OF h] by (simp add: init_def)
qed

text \<open>
  Claim C5. When the file holds a JSON array of four-field records, \<open>load_from_json\<close>
  raises nothing and the list becomes that array as parsed, in the order of the file,
  whatever the list was before; the files are untouched and the log names the path.
\<close>

theorem load_from_json_replaces:
  assumes "files s filename = Some content" and "json_loads content = Inr (JArr xs)"
    and "list_all is_train xs"
  shows "load_from_json filename s =
           (None, s\<lparr>trains := JArr xs, log := log s @ [(INFO, LoadedFrom filename)]\<rparr>)
         \<and> list_trains (snd (load_from_json filename s)) = JArr xs"
  using assms by (simp add: load_from_json_def list_trains_def)

theorem load_from_json_replaces_witness:
  \<open>files \<lparr>trains = JArr [train_dict ''Tula'' ''7'' ''05:00'' ''Orel''],
          files = [''t.json'' \<mapsto> ''[{"destination": "Kazan", "time_departure": "09:15", "number_train": "101", "departure_point": "Moscow"}, {"departure_point": "Moscow", "number_train": "202", "time_departure": "08:00", "destination": "Samara"}]''],
          log = []\<rparr> ''t.json'' =
     Some ''[{"destination": "Kazan", "time_departure": "09:15", "number_train": "101", "departure_point": "Moscow"}, {"departure_point": "Moscow", "number_train": "202", "time_departure": "08:00", "destination": "Samara"}]''
   \<and> json_loads ''[{"destination": "Kazan", "time_departure": "09:15", "number_train": "101", "departure_point": "Moscow"}, {"departure_point": "Moscow", "number_train": "202", "time_departure": "08:00", "destination": "Samara"}]'' =
     Inr (JArr [JObj [(''destination'', JStr ''Kazan''), (''time_departure'', JStr ''09:15''),
                      (''number_train'', JStr ''101''), (''departure_point'', JStr ''Moscow'')],
                train_dict ''Moscow'' ''202'' ''08:00'' ''Samara''])
   \<and> list_all is_train
       [JObj [(''destination'', JStr ''Kazan''), (''time_departure'', JStr ''09:15''),
              (''number_train'', JStr ''101''), (''departure_point'', JStr ''Moscow'')],
        train_dict ''Moscow'' ''202'' ''08:00'' ''Samara'']
   \<and> list_trains (snd (load_from_json ''t.json''
       \<lparr>trains = JArr [train_dict ''Tula'' ''7'' ''05:00'' ''Orel''],
        files = [''t.json'' \<mapsto> ''[{"destination": "Kazan", "time_departure": "09:15", "number_train": "101", "departure_point": "Moscow"}, {"departure_point": "Moscow", "number_train": "202", "time_departure": "08:00", "destination": "Samara"}]''],
        log = []\<rparr>)) =
     JArr [JObj [(''destination'', JStr ''Kazan''), (''time_departure'', JStr ''09:15''),
                 (''number_train'', JStr ''101''), (''departure_point'', JStr ''Moscow'')],
           train_dict ''Moscow'' ''202'' ''08:00'' ''Samara'']\<close>
proof -
  let ?c = \<open>''[{"destination": "Kazan", "time_departure": "09:15", "number_train": "101", "departure_point": "Moscow"}, {"departure_point": "Moscow", "number_train": "202", "time_departure": "08:00", "destination": "Samara"}]''\<close>
  let ?xs = "[JObj [(''destination'', JStr ''Kazan''), (''time_departure'', JStr ''09:15''),
                    (''number_train'', JStr ''101''), (''departure_point'', JStr ''Moscow'')],
              train_dict ''Moscow'' ''202'' ''08:00'' ''Samara'']"
  let ?s = "\<lparr>trains = JArr [train_dict ''Tula'' ''7'' ''05:00'' ''Orel''],
             files = [''t.json'' \<mapsto> ?c], log = []\<rparr>"
  have h1: "files ?s ''t.json'' = Some ?c" by simp
  have h2: "json_loads ?c = Inr (JArr ?xs)" by code_simp
  have h3: "list_all is_train ?xs" by code_simp
  have r: "list_trains (snd (load_from_json ''t.json'' ?s)) = JArr ?xs"
    using load_from_json_replaces [OF h1 h2 h3] by (rule conjunct2)
  show ?thesis by (intro conjI) (rule h1 h2 h3 r)+
qed

text \<open>
  Claim C8. When \<open>load_from_json\<close> raises, the store is what it was before the call: the
  list, the files and the log. The only statement that can raise is the call of the
  decoder, and the assignment to the list comes after it.
\<close>

theorem load_from_json_failure:
  assumes "fst (load_from_json filename s) = Some e"
  shows "snd (load_from_json filename s) = s
         \<and> list_trains (snd (load_from_json filename s)) = list_trains s"
  using assms by (auto simp: load_from_json_def split: option.splits sum.splits)

theorem load_from_json_failure_witness:
  "fst (load_from_json ''bad.json''
     \<lparr>trains = JArr [train_dict ''Moscow'' ''101'' ''09:15'' ''Kazan''],
      files = [''bad.json'' \<mapsto> ''[{''], log = []\<rparr>) = Some JSONDecodeError
   \<and> snd (load_from_json ''bad.json''
     \<lparr>trains = JArr [train_dict ''Moscow'' ''101'' ''09:15'' ''Kazan''],
      files = [''bad.json'' \<mapsto> ''[{''], log = []\<rparr>) =
     \<lparr>trains = JArr [train_dict ''Moscow'' ''101'' ''09:15'' ''Kazan''],
      files = [''bad.json'' \<mapsto> ''[{''], log = []\<rparr>"
proof -
  let ?s = "\<lparr>trains = JArr [train_dict ''Moscow'' ''101'' ''09:15'' ''Kazan''],
             files = [''bad.json'' \<mapsto> ''[{''], log = []\<rparr>"
  have bad: "json_loads ''[{'' = Inl JSONDecodeError" by code_simp
  have h: "fst (load_from_json ''bad.json'' ?s) = Some JSONDecodeError"
    by (simp add: load_from_json_def bad)
  show ?thesis using h load_from_json_failure [OF h] by simp
qed

text \<open>
  Claim C4, as the code has it. When the file is there and its text is malformed, that
  is, not well-formed JSON text, the decoder raises an error and \<open>load_from_json\<close>, which
  has no handler, lets it through to the caller: the call ends with that error, and the
  store is as before.
\<close>

theorem load_from_json_malformed:
  assumes "files s filename = Some content" and "\<not> well_formed content"
  shows "\<exists>e. json_loads content = Inl e \<and> load_from_json filename s = (Some e, s)"
proof (cases "json_loads content")
  case (Inl e)
  with assms(1) show ?thesis by (simp add: load_from_json_def)
next
  case (Inr v)
  then have "well_formed content" by (rule json_loads_well_formed)
  with assms(2) show ?thesis by simp
qed

theorem load_from_json_malformed_witness:
  "files (init [''bad.json'' \<mapsto> ''[{'', ''empty.json'' \<mapsto> []] []) ''bad.json'' = Some ''[{''
   \<and> \<not> well_formed ''[{''
   \<and> load_from_json ''bad.json'' (init [''bad.json'' \<mapsto> ''[{'', ''empty.json'' \<mapsto> []] []) =
       (Some JSONDecodeError, init [''bad.json'' \<mapsto> ''[{'', ''empty.json'' \<mapsto> []] [])
   \<and> files (init [''bad.json'' \<mapsto> ''[{'', ''empty.json'' \<mapsto> []] []) ''empty.json'' = Some []
   \<and> \<not> well_formed []
   \<and> load_from_json ''empty.json'' (init [''bad.json'' \<mapsto> ''[{'', ''empty.json'' \<mapsto> []] []) =
       (Some JSONDecodeError, init [''bad.json'' \<mapsto> ''[{'', ''empty.json'' \<mapsto> []] [])"
proof -
  let ?s = "init [''bad.json'' \<mapsto> ''[{'', ''empty.json'' \<mapsto> []] []"
  have h1: "files ?s ''bad.json'' = Some ''[{''" by (simp add: init_def)
  have h2: "files ?s ''empty.json'' = Some []" by (simp add: init_def)
  have bad: "json_loads ''[{'' = Inl JSONDecodeError" by code_simp
  have empty: "json_loads [] = Inl JSONDecodeError" by code_simp
  from load_from_json_malformed [OF h1 not_well_formed_open] bad
  have r1: "load_from_json ''bad.json'' ?s = (Some JSONDecodeError, ?s)" by auto
  from load_from_json_malformed [OF h2 not_well_formed_empty] empty
  have r2: "load_from_json ''empty.json'' ?s = (Some JSONDecodeError, ?s)" by auto
  show ?thesis
    by (intro conjI) (rule h1 h2 r1 r2 not_well_formed_open not_well_formed_empty)+
qed

text \<open>The constants that JSON does not have are read, so they are not malformed text
  for this claim.\<close>

lemma json_loads_constants:
  "json_loads ''[NaN, Infinity, -Infinity]'' =
     Inr (JArr [JFloat ''NaN'', JFloat ''Infinity'', JFloat ''-Infinity''])"
  by code_simp

text \<open>Claim C4 as the specification states it fails: a record that lacks the destination
  is loaded without an error, and the list then holds it.\<close>

theorem load_from_json_missing_field_counterexample:
  \<open>files (init [''t.json'' \<mapsto> ''[{"departure_point": "Moscow", "number_train": "101", "time_departure": "09:15"}]''] []) ''t.json''
     = Some ''[{"departure_point": "Moscow", "number_train": "101", "time_departure": "09:15"}]''
   \<and> json_loads ''[{"departure_point": "Moscow", "number_train": "101", "time_departure": "09:15"}]'' =
       Inr (JArr [JObj [(''departure_point'', JStr ''Moscow''), (''number_train'', JStr ''101''),
                        (''time_departure'', JStr ''09:15'')]])
   \<and> \<not> is_train (JObj [(''departure_point'', JStr ''Moscow''), (''number_train'', JStr ''101''),
                        (''time_departure'', JStr ''09:15'')])
   \<and> fst (load_from_json ''t.json''
       (init [''t.json'' \<mapsto> ''[{"departure_point": "Moscow", "number_train": "101", "time_departure": "09:15"}]''] [])) = None
   \<and> list_trains (snd (load_from_json ''t.json''
       (init [''t.json'' \<mapsto> ''[{"departure_point": "Moscow", "number_train": "101", "time_departure": "09:15"}]''] []))) =
       JArr [JObj [(''departure_point'', JStr ''Moscow''), (''number_train'', JStr ''101''),
                   (''time_departure'', JStr ''09:15'')]]\<close>
proof -
  let ?c = \<open>''[{"departure_point": "Moscow", "number_train": "101", "time_departure": "09:15"}]''\<close>
  let ?t = "JObj [(''departure_point'', JStr ''Moscow''), (''number_train'', JStr ''101''),
                  (''time_departure'', JStr ''09:15'')]"
  have p: "json_loads ?c = Inr (JArr [?t])" by code_simp
  have n: "\<not> is_train ?t" by code_simp
  show ?thesis using p n by (simp add: load_from_json_def init_def list_trains_def)
qed

section \<open>Saving, then loading\<close>




end
